theory Spec2Isabelle
  imports Complex_Main "HOL-Library.AList" "HOL-Library.Sublist" "HOL-Library.Log_Nat"
begin

section \<open>JavaScript values the client handles\<close>

text \<open>
  The client is \<^verbatim>\<open>services/authService.js\<close> (class \<^verbatim>\<open>AuthService\<close>) and
  \<^verbatim>\<open>components/SideBar.jsx\<close>. Both are asynchronous JavaScript: a function runs
  without interruption up to its next \<^verbatim>\<open>await\<close>, and continues when the awaited promise
  settles. Each function is therefore split at its awaits into segments
  (\<open>f_call\<close>, \<open>f_settle\<close>); the settlement the environment delivers (a response, or a
  rejection) is an argument of the continuation. A function named as in the source is the
  sequential composition of its segments.

  An error value carries its message and what \<^verbatim>\<open>e.response?.status\<close> reads on it.
  A promise settles by rejection with an error or by fulfilment with a value.
\<close>

record js_error =
  message :: string
  response_status :: "nat option"

datatype 'a settled = Rejected js_error | Fulfilled 'a

definition Error :: "string \<Rightarrow> js_error" where
  \<comment> \<open>\<^verbatim>\<open>new Error(msg)\<close>: no \<^verbatim>\<open>response\<close> property\<close>
  "Error msg = \<lparr>message = msg, response_status = None\<rparr>"

text \<open>
  A \<^verbatim>\<open>fetch\<close> response: its HTTP status and what \<^verbatim>\<open>response.json()\<close> settles to.
  \<^verbatim>\<open>response.ok\<close> is true for the statuses 200 to 299. \<^verbatim>\<open>fetch\<close> itself rejects only
  when no response arrives (network failure); an HTTP error status is a fulfilled response.
\<close>

record 'b response =
  status :: nat
  json :: "'b settled"

definition ok :: "'b response \<Rightarrow> bool" where
  "ok r = (200 \<le> status r \<and> status r \<le> 299)"

text \<open>
  A JavaScript number is an IEEE 754 double: a finite value, an infinity or NaN. The sign
  of zero is not represented; nothing here divides by a number or prints one. The result
  of an arithmetic operation is the exact result rounded to the nearest double, ties to
  the even significand (\<open>rd\<close>): \<open>expo x\<close> is the exponent \<open>n\<close> with
  \<open>2 powi n \<le> \<bar>x\<bar> < 2 powi (n + 1)\<close>, \<open>ulp x\<close> the spacing of the doubles around \<open>x\<close>
  (53 significant bits, and never finer than \<open>2 powi (- 1074)\<close>), and a result of
  magnitude \<open>2 powi 1024\<close> or more is an infinity. A numeric literal of the source is the
  double nearest to it. \<^verbatim>\<open>Math.floor\<close> and \<^verbatim>\<open>Math.max\<close> are exact.
\<close>

datatype number = NaN | PosInf | NegInf | Finite rat

definition expo :: "rat \<Rightarrow> int" where
  "expo x = (if 1 \<le> \<bar>x\<bar> then bitlen \<lfloor>\<bar>x\<bar>\<rfloor> - 1 else - bitlen (\<lceil>1 / \<bar>x\<bar>\<rceil> - 1))"

definition ulp :: "rat \<Rightarrow> rat" where
  "ulp x = 2 powi (max (expo x - 52) (- 1074))"

definition round_even :: "rat \<Rightarrow> int" where
  "round_even q =
     (let f = \<lfloor>q\<rfloor>; r = q - of_int f
      in if r < 1 / 2 then f else if 1 / 2 < r then f + 1 else if even f then f else f + 1)"

definition nearest :: "rat \<Rightarrow> rat" where
  "nearest x = (if x = 0 then 0 else of_int (round_even (x / ulp x)) * ulp x)"

definition rd :: "rat \<Rightarrow> number" where
  "rd x =
     (let y = nearest x
      in if 2 powi 1024 \<le> y then PosInf else if y \<le> - (2 powi 1024) then NegInf else Finite y)"


text \<open>
  The operators \<^verbatim>\<open>*\<close> and \<^verbatim>\<open>-\<close> on numbers, \<^verbatim>\<open>Math.floor\<close>, \<^verbatim>\<open>Math.max\<close> and the
  truthiness of a number (zero and NaN are falsy).
\<close>

fun js_times :: "number \<Rightarrow> number \<Rightarrow> number" where
  "js_times NaN b = NaN"
| "js_times a NaN = NaN"
| "js_times (Finite x) (Finite y) = rd (x * y)"
| "js_times (Finite x) PosInf = (if x = 0 then NaN else if 0 < x then PosInf else NegInf)"
| "js_times (Finite x) NegInf = (if x = 0 then NaN else if 0 < x then NegInf else PosInf)"
| "js_times PosInf (Finite y) = (if y = 0 then NaN else if 0 < y then PosInf else NegInf)"
| "js_times NegInf (Finite y) = (if y = 0 then NaN else if 0 < y then NegInf else PosInf)"
| "js_times PosInf PosInf = PosInf"
| "js_times PosInf NegInf = NegInf"
| "js_times NegInf PosInf = NegInf"
| "js_times NegInf NegInf = PosInf"

fun js_minus :: "number \<Rightarrow> number \<Rightarrow> number" where
  "js_minus NaN b = NaN"
| "js_minus a NaN = NaN"
| "js_minus (Finite x) (Finite y) = rd (x - y)"
| "js_minus (Finite x) PosInf = NegInf"
| "js_minus (Finite x) NegInf = PosInf"
| "js_minus PosInf PosInf = NaN"
| "js_minus PosInf b = PosInf"
| "js_minus NegInf NegInf = NaN"
| "js_minus NegInf b = NegInf"

fun js_floor :: "number \<Rightarrow> number" where
  "js_floor (Finite x) = Finite (of_int \<lfloor>x\<rfloor>)"
| "js_floor a = a"

fun js_max :: "number \<Rightarrow> number \<Rightarrow> number" where
  "js_max NaN b = NaN"
| "js_max a NaN = NaN"
| "js_max PosInf b = PosInf"
| "js_max a PosInf = PosInf"
| "js_max NegInf b = b"
| "js_max a NegInf = a"
| "js_max (Finite x) (Finite y) = Finite (max x y)"

fun js_truthy :: "number \<Rightarrow> bool" where
  "js_truthy NaN = False"
| "js_truthy (Finite x) = (x \<noteq> 0)"
| "js_truthy a = True"


text \<open>
  The body of the login and refresh responses, \<^verbatim>\<open>{access_token, expires_in}\<close>; an absent
  field is \<open>None\<close>. \<^verbatim>\<open>expires_in\<close> is the number the JSON parser read.
\<close>

record token_data =
  access_token :: "string option"
  expires_in :: "number option"

definition truthy :: "string option \<Rightarrow> bool" where
  \<comment> \<open>JavaScript truthiness of a string that may be null or undefined\<close>
  "truthy t = (case t of None \<Rightarrow> False | Some s \<Rightarrow> s \<noteq> [])"

text \<open>
  The options of a request, \<^verbatim>\<open>{method, headers, body, credentials}\<close>; the field
  \<^verbatim>\<open>method\<close> is \<open>http_method\<close> and \<^verbatim>\<open>body\<close> is \<open>payload\<close> here. Headers keep
  their insertion order. The observable effects of the client are logged as events.
\<close>

type_synonym headers = "(string \<times> string) list"

record req_options =
  http_method :: "string option"
  headers :: headers
  payload :: "string option"
  credentials :: "string option"

datatype event =
    Fetch string req_options
  | SetTimeout nat number
  | ClearTimeout nat
  | Redirect string
  | ConsoleError string

section \<open>AuthService\<close>

text \<open>
  The three fields of the class, and the browser state its methods act on: the pending
  timeouts (handle and delay in milliseconds), the promises created by
  \<^verbatim>\<open>refreshAccessToken\<close> with how they settled (\<open>None\<close>: still pending), the refresh
  network calls that have not settled yet, and the log of observable effects.
  \<^verbatim>\<open>setTimeout\<close> returns a fresh positive integer handle.
\<close>

record auth_service =
  accessToken :: "string option"
  tokenRefreshTimeout :: "nat option"
  refreshPromise :: "nat option"
  timers :: "(nat \<times> number) list"
  next_handle :: nat
  promises :: "nat \<Rightarrow> token_data settled option"
  next_promise :: nat
  outstanding :: "nat list"
  log :: "event list"

definition constructor :: auth_service where
  "constructor = \<lparr>accessToken = None, tokenRefreshTimeout = None, refreshPromise = None,
     timers = [], next_handle = 0, promises = (\<lambda>_. None), next_promise = 0,
     outstanding = [], log = []\<rparr>"

definition emit :: "event \<Rightarrow> auth_service \<Rightarrow> auth_service" where
  "emit e w = w\<lparr>log := log w @ [e]\<rparr>"

definition setTimeout :: "number \<Rightarrow> auth_service \<Rightarrow> nat \<times> auth_service" where
  "setTimeout delay w =
     (let h = Suc (next_handle w)
      in (h, emit (SetTimeout h delay) (w\<lparr>timers := timers w @ [(h, delay)], next_handle := h\<rparr>)))"

definition clearTimeout :: "nat \<Rightarrow> auth_service \<Rightarrow> auth_service" where
  "clearTimeout h w = emit (ClearTimeout h) (w\<lparr>timers := filter (\<lambda>t. fst t \<noteq> h) (timers w)\<rparr>)"

definition scheduleTokenRefresh :: "number \<Rightarrow> auth_service \<Rightarrow> auth_service" where
  "scheduleTokenRefresh delay w =
     (let w1 = (case tokenRefreshTimeout w of
                  None \<Rightarrow> w
                | Some h \<Rightarrow> if h \<noteq> 0 then clearTimeout h w else w);
          (h', w2) = setTimeout delay w1
      in w2\<lparr>tokenRefreshTimeout := Some h'\<rparr>)"

text \<open>
  Lines 45 to 47 (and 104 to 106), in the arithmetic of the source:
  \<^verbatim>\<open>data.expires_in || 30 * 60\<close>, then
  \<^verbatim>\<open>Math.max(60, Math.floor(expiresIn * 0.2))\<close>, then
  \<^verbatim>\<open>(expiresIn - refreshBefore) * 1000\<close>, the delay in milliseconds handed to
  \<^verbatim>\<open>setTimeout\<close>.
\<close>

definition refreshIn :: "number option \<Rightarrow> number" where
  "refreshIn e =
     (let fallback = js_times (Finite 30) (Finite 60);
          expiresIn = (case e of None \<Rightarrow> fallback | Some n \<Rightarrow> if js_truthy n then n else fallback);
          refreshBefore = js_max (Finite 60) (js_floor (js_times expiresIn (rd (2 / 10))))
      in js_times (js_minus expiresIn refreshBefore) (Finite 1000))"


text \<open>
  \<^verbatim>\<open>login\<close>, lines 23 to 51. The form data with the two fields is written as one string.
  The two awaits of the continuation, on \<^verbatim>\<open>fetch\<close> and on \<^verbatim>\<open>response.json()\<close>, touch no
  state between them and are one segment, here and in \<^verbatim>\<open>refreshAccessToken\<close>.
\<close>

definition login_call :: "string \<Rightarrow> string \<Rightarrow> string \<Rightarrow> auth_service \<Rightarrow> auth_service" where
  "login_call base username password w =
     emit (Fetch (base @ ''/auth/token'')
             \<lparr>http_method = Some ''POST'', headers = [],
              payload = Some (''username='' @ username @ ''&password='' @ password),
              credentials = Some ''include''\<rparr>) w"

definition login_settle ::
  "token_data response settled \<Rightarrow> auth_service \<Rightarrow> (js_error + token_data) \<times> auth_service" where
  "login_settle res w =
     (case res of
        Rejected e \<Rightarrow> (Inl e, w)
      | Fulfilled r \<Rightarrow>
          if \<not> ok r then (Inl (Error ''Login failed''), w)
          else (case json r of
                  Rejected e \<Rightarrow> (Inl e, w)
                | Fulfilled data \<Rightarrow>
                    (Inr data,
                     scheduleTokenRefresh (refreshIn (expires_in data))
                       (w\<lparr>accessToken := access_token data\<rparr>))))"

definition login ::
  "string \<Rightarrow> string \<Rightarrow> string \<Rightarrow> token_data response settled \<Rightarrow> auth_service
     \<Rightarrow> (js_error + token_data) \<times> auth_service" where
  "login base username password res w = login_settle res (login_call base username password w)"

text \<open>
  \<^verbatim>\<open>refreshAccessToken\<close>, lines 81 to 114. The call segment runs up to the
  \<^verbatim>\<open>await fetch\<close> inside the immediately invoked async function: with the marker
  \<^verbatim>\<open>_refreshPromise\<close> set it returns that promise and does nothing else; otherwise it
  issues the network call and stores the new promise. A promise object is always truthy.
  The returned number is the promise the caller's \<^verbatim>\<open>await\<close> follows.
\<close>

definition refreshAccessToken :: "string \<Rightarrow> auth_service \<Rightarrow> nat \<times> auth_service" where
  "refreshAccessToken base w =
     (case refreshPromise w of
        Some p \<Rightarrow> (p, w)
      | None \<Rightarrow>
          (let p = Suc (next_promise w);
               w1 = emit (Fetch (base @ ''/auth/refresh'')
                            \<lparr>http_method = Some ''POST'', headers = [], payload = None,
                             credentials = Some ''include''\<rparr>) w
           in (p, w1\<lparr>refreshPromise := Some p, next_promise := p,
                     outstanding := outstanding w1 @ [p]\<rparr>)))"

text \<open>
  The continuation of the async function of promise \<open>p\<close>, when its network call settles;
  it returns how \<open>p\<close> settles. A rejected \<^verbatim>\<open>fetch\<close> and a rejected
  \<^verbatim>\<open>response.json()\<close> throw out of the function where the source has no handler: the
  promise is rejected and nothing else is executed.
\<close>

definition settle_promise ::
  "nat \<Rightarrow> token_data settled \<Rightarrow> auth_service \<Rightarrow> token_data settled \<times> auth_service" where
  "settle_promise p v w =
     (v, w\<lparr>promises := (promises w)(p := Some v), outstanding := removeAll p (outstanding w)\<rparr>)"

definition refreshAccessToken_settle ::
  "nat \<Rightarrow> token_data response settled \<Rightarrow> auth_service \<Rightarrow> token_data settled \<times> auth_service" where
  "refreshAccessToken_settle p res w =
     (case res of
        Rejected e \<Rightarrow> settle_promise p (Rejected e) w
      | Fulfilled r \<Rightarrow>
          if \<not> ok r then
            settle_promise p (Rejected (Error ''Token refresh failed'')) (w\<lparr>refreshPromise := None\<rparr>)
          else (case json r of
                  Rejected e \<Rightarrow> settle_promise p (Rejected e) w
                | Fulfilled data \<Rightarrow>
                    (let w1 = w\<lparr>accessToken := access_token data\<rparr>;
                         w2 = scheduleTokenRefresh (refreshIn (expires_in data)) w1
                     in settle_promise p (Fulfilled data) (w2\<lparr>refreshPromise := None\<rparr>))))"

text \<open>
  \<^verbatim>\<open>await this.refreshAccessToken()\<close> run to its end with nothing interleaved: a promise
  that has settled already yields its settlement; a pending one settles by the
  continuation above, on the response \<open>res\<close> its network call receives.
\<close>

definition await_refresh ::
  "nat \<Rightarrow> token_data response settled \<Rightarrow> auth_service \<Rightarrow> token_data settled \<times> auth_service" where
  "await_refresh p res w =
     (case promises w p of
        Some v \<Rightarrow> (v, w)
      | None \<Rightarrow> refreshAccessToken_settle p res w)"

text \<open>\<^verbatim>\<open>logout\<close>, lines 187 to 205: the revocation request, then the local cleanup
  whatever the request's outcome was.\<close>

definition logout_call :: "string \<Rightarrow> auth_service \<Rightarrow> auth_service" where
  "logout_call base w =
     emit (Fetch (base @ ''/auth/logout'')
             \<lparr>http_method = Some ''POST'', headers = [], payload = None,
              credentials = Some ''include''\<rparr>) w"

definition logout_settle :: "unit response settled \<Rightarrow> auth_service \<Rightarrow> auth_service" where
  "logout_settle res w =
     (let w1 = (case res of
                  Rejected e \<Rightarrow> emit (ConsoleError ''Logout request failed:'') w
                | Fulfilled r \<Rightarrow> w);
          w2 = w1\<lparr>accessToken := None\<rparr>
      in (case tokenRefreshTimeout w2 of
            None \<Rightarrow> w2
          | Some h \<Rightarrow> if h \<noteq> 0 then (clearTimeout h w2)\<lparr>tokenRefreshTimeout := None\<rparr> else w2))"

definition logout :: "string \<Rightarrow> unit response settled \<Rightarrow> auth_service \<Rightarrow> auth_service" where
  "logout base res w = logout_settle res (logout_call base w)"

text \<open>
  The callback armed by \<^verbatim>\<open>scheduleTokenRefresh\<close>, lines 64 to 71, run to its end:
  \<^verbatim>\<open>refreshAccessToken\<close>, and on its rejection the handler, which calls \<^verbatim>\<open>logout()\<close>
  without awaiting it and redirects.
\<close>

definition force_logout :: "string \<Rightarrow> auth_service \<Rightarrow> auth_service" where
  \<comment> \<open>\<^verbatim>\<open>this.logout(); window.location.href = '/login'\<close>\<close>
  "force_logout base w = emit (Redirect ''/login'') (logout_call base w)"

definition scheduled_refresh ::
  "string \<Rightarrow> token_data response settled \<Rightarrow> auth_service \<Rightarrow> auth_service" where
  "scheduled_refresh base res w =
     (let (p, w1) = refreshAccessToken base w;
          (v, w2) = await_refresh p res w1
      in (case v of
            Rejected e \<Rightarrow> force_logout base (emit (ConsoleError ''Scheduled token refresh failed:'') w2)
          | Fulfilled data \<Rightarrow> w2))"

text \<open>
  \<^verbatim>\<open>apiRequest\<close>, lines 121 to 179. \<^verbatim>\<open>headers['Authorization'] = v\<close> replaces the value
  of an existing key in place and appends a new key, as \<open>AList.update\<close> does. The test
  \<^verbatim>\<open>/^https?:\/\//i\<close> and the resolution of the URL against \<^verbatim>\<open>API_BASE_URL\<close>, which
  is imported from \<^verbatim>\<open>util.js\<close> and is the parameter \<open>base\<close> throughout.
\<close>

fun is_absolute :: "string \<Rightarrow> bool" where
  "is_absolute (h # t1 # t2 # p # rest) =
     (h \<in> {CHR ''h'', CHR ''H''} \<and> t1 \<in> {CHR ''t'', CHR ''T''} \<and> t2 \<in> {CHR ''t'', CHR ''T''} \<and>
      p \<in> {CHR ''p'', CHR ''P''} \<and>
      (prefix ''://'' rest \<or>
       (case rest of [] \<Rightarrow> False | s # rest' \<Rightarrow> s \<in> {CHR ''s'', CHR ''S''} \<and> prefix ''://'' rest')))"
| "is_absolute _ = False"

definition resolveUrl :: "string \<Rightarrow> string \<Rightarrow> string" where
  "resolveUrl base url =
     (if \<not> is_absolute url then
        (if prefix base url then url
         else if prefix ''/'' url then base @ url
         else base @ ''/'' @ url)
      else url)"

definition attach :: "auth_service \<Rightarrow> headers \<Rightarrow> headers" where
  \<comment> \<open>\<^verbatim>\<open>if (this.accessToken) headers['Authorization'] = `Bearer ${this.accessToken}`\<close>\<close>
  "attach w hs =
     (case accessToken w of
        None \<Rightarrow> hs
      | Some t \<Rightarrow> if t \<noteq> [] then AList.update ''Authorization'' (''Bearer '' @ t) hs else hs)"

definition send :: "string \<Rightarrow> string \<Rightarrow> req_options \<Rightarrow> headers \<Rightarrow> auth_service \<Rightarrow> auth_service" where
  \<comment> \<open>\<^verbatim>\<open>fetch(fullUrl, {...options, headers, credentials: 'include'})\<close>\<close>
  "send base url options hs w =
     emit (Fetch (resolveUrl base url) (options\<lparr>headers := hs, credentials := Some ''include''\<rparr>)) w"

text \<open>
  \<^verbatim>\<open>apiRequest\<close> in two segments. The call runs up to the first \<^verbatim>\<open>await fetch\<close> and
  keeps the headers object. The continuation runs from the first response to the return
  with nothing interleaved: the environment supplies the first response \<open>first\<close>, the
  response \<open>rres\<close> of the refresh network call and the response \<open>retry\<close> of the resent
  request, each read only where the source awaits it. A rejected first \<^verbatim>\<open>fetch\<close> is
  outside the \<^verbatim>\<open>try\<close> block and propagates as it is. \<open>refresh_outcome\<close> is how the
  promise of lines 87 to 111 settles on the response of its network call.
\<close>

definition apiRequest_call ::
  "string \<Rightarrow> string \<Rightarrow> req_options \<Rightarrow> auth_service \<Rightarrow> headers \<times> auth_service" where
  "apiRequest_call base url options w =
     (let hs = attach w (headers options) in (hs, send base url options hs w))"

definition apiRequest_settle ::
  "string \<Rightarrow> string \<Rightarrow> req_options \<Rightarrow> headers \<Rightarrow> 'b response settled
     \<Rightarrow> token_data response settled \<Rightarrow> 'b response settled \<Rightarrow> auth_service
     \<Rightarrow> (js_error + 'b response) \<times> auth_service" where
  "apiRequest_settle base url options hs first rres retry w1 =
     (case first of
        Rejected e \<Rightarrow> (Inl e, w1)
      | Fulfilled response \<Rightarrow>
          if status response = 401 then
            (let (p, w2) = refreshAccessToken base w1;
                 (v, w3) = await_refresh p rres w2
             in (case v of
                   Rejected e \<Rightarrow> (Inl e, force_logout base w3)
                 | Fulfilled data \<Rightarrow>
                     (let hs' = attach w3 hs;
                          w4 = send base url options hs' w3
                      in (case retry of
                            Rejected e \<Rightarrow> (Inl e, force_logout base w4)
                          | Fulfilled response' \<Rightarrow> (Inr response', w4)))))
          else (Inr response, w1))"

definition apiRequest ::
  "string \<Rightarrow> string \<Rightarrow> req_options \<Rightarrow> 'b response settled \<Rightarrow> token_data response settled
     \<Rightarrow> 'b response settled \<Rightarrow> auth_service \<Rightarrow> (js_error + 'b response) \<times> auth_service" where
  "apiRequest base url options first rres retry w =
     (let (hs, w1) = apiRequest_call base url options w
      in apiRequest_settle base url options hs first rres retry w1)"

definition refresh_outcome :: "token_data response settled \<Rightarrow> token_data settled" where
  "refresh_outcome rres =
     (case rres of
        Rejected e \<Rightarrow> Rejected e
      | Fulfilled r \<Rightarrow> if \<not> ok r then Rejected (Error ''Token refresh failed'') else json r)"

subsection \<open>Interleavings\<close>

text \<open>
  What the event loop can run on the service, one uninterrupted segment at a time: the
  call and the continuation of \<^verbatim>\<open>login\<close>, \<^verbatim>\<open>refreshAccessToken\<close> and \<^verbatim>\<open>logout\<close>, a
  direct \<^verbatim>\<open>scheduleTokenRefresh\<close>, the firing of a pending timeout (which removes it and
  runs the callback up to its \<^verbatim>\<open>await\<close>), the rejection handler of that callback, and
  the segments of \<^verbatim>\<open>apiRequest\<close>: a send with the token of that moment, its call of
  \<^verbatim>\<open>refreshAccessToken\<close> (which is \<open>Refresh_call\<close>) and its \<^verbatim>\<open>catch\<close> block. A
  continuation of \<^verbatim>\<open>refreshAccessToken\<close> runs only for a promise whose network call is
  outstanding, and a timeout fires only while pending; the other segments may run at any
  time, which admits more interleavings than the program has.
\<close>

datatype action =
    Login_call string string
  | Login_settle "token_data response settled"
  | Refresh_call
  | Refresh_settle nat "token_data response settled"
  | Schedule number
  | Timer_fire nat
  | Timer_handler
  | Api_send string req_options headers
  | Api_catch
  | Logout_call
  | Logout_settle "unit response settled"

fun step :: "string \<Rightarrow> auth_service \<Rightarrow> action \<Rightarrow> auth_service" where
  "step base w (Login_call username password) = login_call base username password w"
| "step base w (Login_settle res) = snd (login_settle res w)"
| "step base w Refresh_call = snd (refreshAccessToken base w)"
| "step base w (Refresh_settle p res) =
     (if p \<in> set (outstanding w) then snd (refreshAccessToken_settle p res w) else w)"
| "step base w (Schedule delay) = scheduleTokenRefresh delay w"
| "step base w (Timer_fire h) =
     (if h \<in> fst ` set (timers w)
      then snd (refreshAccessToken base (w\<lparr>timers := filter (\<lambda>t. fst t \<noteq> h) (timers w)\<rparr>))
      else w)"
| "step base w Timer_handler =
     force_logout base (emit (ConsoleError ''Scheduled token refresh failed:'') w)"
| "step base w (Api_send url options hs) = send base url options (attach w hs) w"
| "step base w Api_catch = force_logout base w"
| "step base w Logout_call = logout_call base w"
| "step base w (Logout_settle res) = logout_settle res w"

definition run :: "string \<Rightarrow> action list \<Rightarrow> auth_service" where
  "run base acts = foldl (step base) constructor acts"

text \<open>Observations of a log: the network calls to one URL.\<close>

fun is_fetch :: "string \<Rightarrow> event \<Rightarrow> bool" where
  "is_fetch url (Fetch u options) = (u = url)"
| "is_fetch url _ = False"

definition fetches :: "string \<Rightarrow> auth_service \<Rightarrow> nat" where
  "fetches url w = length (filter (is_fetch url) (log w))"

fun timer_event :: "event \<Rightarrow> bool" where
  "timer_event (SetTimeout h d) = True"
| "timer_event (ClearTimeout h) = True"
| "timer_event _ = False"

fun calls :: "string \<Rightarrow> nat \<Rightarrow> auth_service \<Rightarrow> nat list \<times> auth_service" where
  \<comment> \<open>\<open>n\<close> calls of \<^verbatim>\<open>refreshAccessToken\<close> in a row, with the promise each caller gets\<close>
  "calls base 0 w = ([], w)"
| "calls base (Suc n) w =
     (let (p, w1) = refreshAccessToken base w; (ps, w2) = calls base n w1 in (p # ps, w2))"

section \<open>SideBar: tracking a task\<close>

text \<open>
  The body of a task status response, \<^verbatim>\<open>{status, task_id, error}\<close>, and of the program
  list response, whose \<^verbatim>\<open>programs\<close> may be missing. The state of the component: the
  \<^verbatim>\<open>useState\<close> cells the tracking code writes, the interval armed by the effect of lines
  32 to 46 (the task id its callback closes over, and its period in milliseconds), and the
  values of \<^verbatim>\<open>[taskId, taskStatus]\<close> at the last run of the effect. After a state change
  the component renders, and React runs the cleanup and the effect again when the
  dependency values differ from those of the last run (\<open>commit\<close>).
\<close>

record task_json =
  task_status :: "string option"
  task_id :: "string option"
  task_error :: "string option"

record sidebar =
  taskId :: "string option"
  taskStatus :: "string option"
  error :: "string option"
  loading :: bool
  programAction :: string
  programName :: string
  selectedProgram :: "string option"
  programList :: "string list"
  pollIntervall :: "(string \<times> nat) option"
  deps :: "string option \<times> string option"

definition mount :: sidebar where
  "mount = \<lparr>taskId = None, taskStatus = None, error = None, loading = False,
     programAction = [], programName = [], selectedProgram = None, programList = [],
     pollIntervall = None, deps = (None, None)\<rparr>"

definition template :: "string option \<Rightarrow> string" where
  \<comment> \<open>a value inside a template literal\<close>
  "template v = (case v of None \<Rightarrow> ''undefined'' | Some s \<Rightarrow> s)"

definition effect :: "sidebar \<Rightarrow> sidebar" where
  "effect s =
     (if truthy (taskId s) \<and> taskStatus s = Some ''processing''
      then s\<lparr>pollIntervall := Some (template (taskId s), 5000)\<rparr>
      else s)"

definition cleanup :: "sidebar \<Rightarrow> sidebar" where
  "cleanup s = (case pollIntervall s of None \<Rightarrow> s | Some i \<Rightarrow> s\<lparr>pollIntervall := None\<rparr>)"

definition commit :: "sidebar \<Rightarrow> sidebar" where
  "commit s =
     (if (taskId s, taskStatus s) = deps s then s
      else (effect (cleanup s))\<lparr>deps := (taskId s, taskStatus s)\<rparr>)"

text \<open>
  \<^verbatim>\<open>getProgramList\<close> of the program context and \<^verbatim>\<open>pollTaskStatus\<close>, lines 120 to 148,
  each run to its end on the responses the environment supplies. An exchange is what the
  environment answers to one \<^verbatim>\<open>apiRequest\<close>: the first response, the response of the
  refresh call and the response of the resent request. The handler of the \<^verbatim>\<open>catch\<close>
  block is \<open>catch_poll\<close>; it also receives what \<^verbatim>\<open>resp.json()\<close> and
  \<^verbatim>\<open>getProgramList\<close> throw inside the \<^verbatim>\<open>try\<close> block.
\<close>

record 'b exchange =
  first :: "'b response settled"
  refresh :: "token_data response settled"
  retry :: "'b response settled"

definition GET :: req_options where
  "GET = \<lparr>http_method = Some ''GET'', headers = [], payload = None, credentials = None\<rparr>"

definition getProgramList ::
  "string \<Rightarrow> string list option exchange \<Rightarrow> auth_service \<times> sidebar
     \<Rightarrow> js_error option \<times> auth_service \<times> sidebar" where
  "getProgramList base x ws =
     (let (w, s) = ws;
          (res, w1) = apiRequest base (base @ ''/program/list'') GET (first x) (refresh x) (retry x) w
      in (case res of
            Inl e \<Rightarrow> (Some e, w1, s)
          | Inr resp \<Rightarrow>
              (case json resp of
                 Rejected e \<Rightarrow> (Some e, w1, s)
               | Fulfilled None \<Rightarrow> (Some (Error ''response.programs is undefined''), w1, s)
               | Fulfilled (Some names) \<Rightarrow> (None, w1, s\<lparr>programList := names\<rparr>))))"

definition catch_poll :: "js_error \<Rightarrow> sidebar \<Rightarrow> sidebar" where
  "catch_poll e s =
     (if response_status e \<noteq> Some 404
      then s\<lparr>error := Some (''Failed to check Program status: '' @ message e),
             loading := False, programAction := [], selectedProgram := Some []\<rparr>
      else s)"

definition pollTaskStatus ::
  "string \<Rightarrow> string \<Rightarrow> task_json exchange \<Rightarrow> string list option exchange
     \<Rightarrow> auth_service \<times> sidebar \<Rightarrow> auth_service \<times> sidebar" where
  "pollTaskStatus base tid x lx ws =
     (let (w, s) = ws;
          (res, w1) = apiRequest base (base @ ''/tasks/'' @ tid) GET (first x) (refresh x) (retry x) w
      in (case res of
            Inl e \<Rightarrow> (w1, catch_poll e s)
          | Inr resp \<Rightarrow>
              (case json resp of
                 Rejected e \<Rightarrow> (w1, catch_poll e s)
               | Fulfilled response \<Rightarrow>
                   (let s1 = s\<lparr>taskStatus := task_status response\<rparr>
                    in if task_status response = Some ''completed'' \<and> truthy (task_id response) then
                         (case getProgramList base lx (w1, s1) of
                            (Some e, w2, s2) \<Rightarrow> (w2, catch_poll e s2)
                          | (None, w2, s2) \<Rightarrow>
                              (w2, s2\<lparr>loading := False, taskStatus := Some ''completed'',
                                      programAction := [], programName := []\<rparr>))
                       else if task_status response = Some ''failed'' \<or> truthy (task_error response) then
                         (w1, s1\<lparr>error := Some (if truthy (task_error response)
                                                 then template (task_error response)
                                                 else ''Program task failed''),
                                 loading := False, programAction := [],
                                 selectedProgram := Some []\<rparr>)
                       else (w1, s1)))))"

text \<open>
  What drives the tracker. \<open>Submitted\<close> is the part of the two submit handlers that starts
  tracking (lines 85 to 88 and 105 to 108): \<^verbatim>\<open>setTaskId\<close>, \<^verbatim>\<open>setTaskStatus\<close> and one
  immediate \<^verbatim>\<open>pollTaskStatus(task_id)\<close>. \<open>Tick\<close> is one period of the interval: its
  callback runs only while the interval is armed, polls the task id it closed over, and the
  component renders on the result. Each poll runs to its end before the next action.
\<close>

datatype ui_action =
    Submitted "string option" "string option" "task_json exchange" "string list option exchange"
  | Tick "task_json exchange" "string list option exchange"

definition tick ::
  "string \<Rightarrow> task_json exchange \<Rightarrow> string list option exchange \<Rightarrow> auth_service \<times> sidebar
     \<Rightarrow> auth_service \<times> sidebar" where
  "tick base x lx ws =
     (case pollIntervall (snd ws) of
        None \<Rightarrow> ws
      | Some (captured, period) \<Rightarrow>
          (let (w', s') = pollTaskStatus base captured x lx ws in (w', commit s')))"

fun ui_step :: "string \<Rightarrow> auth_service \<times> sidebar \<Rightarrow> ui_action \<Rightarrow> auth_service \<times> sidebar" where
  "ui_step base (w, s) (Submitted tid st x lx) =
     (let s1 = commit (s\<lparr>taskId := tid, taskStatus := st\<rparr>);
          (w', s') = pollTaskStatus base (template tid) x lx (w, s1)
      in (w', commit s'))"
| "ui_step base (w, s) (Tick x lx) = tick base x lx (w, s)"

definition ui_run :: "string \<Rightarrow> auth_service \<Rightarrow> ui_action list \<Rightarrow> auth_service \<times> sidebar" where
  "ui_run base w acts = foldl (ui_step base) (w, mount) acts"

definition polling :: "sidebar \<Rightarrow> bool" where
  "polling s = (pollIntervall s \<noteq> None)"



section \<open>Well-formed service states\<close>

text \<open>
  What every state the service reaches satisfies: a pending timeout is the one the field
  \<^verbatim>\<open>tokenRefreshTimeout\<close> holds, handles are positive, an outstanding refresh call
  belongs to the promise the marker holds, and that promise is pending exactly while its
  call is outstanding and is never a fulfilled one.
\<close>

definition wf :: "auth_service \<Rightarrow> bool" where
  "wf w =
     (length (timers w) \<le> 1 \<and>
      (\<forall>t \<in> set (timers w). tokenRefreshTimeout w = Some (fst t)) \<and>
      (\<forall>h. tokenRefreshTimeout w = Some h \<longrightarrow> 0 < h) \<and>
      length (outstanding w) \<le> 1 \<and>
      (\<forall>p \<in> set (outstanding w). refreshPromise w = Some p) \<and>
      (\<forall>p. refreshPromise w = Some p \<longrightarrow>
           p \<le> next_promise w \<and> (promises w p = None \<longleftrightarrow> p \<in> set (outstanding w)) \<and>
           (\<forall>data. promises w p \<noteq> Some (Fulfilled data))) \<and>
      (\<forall>p. next_promise w < p \<longrightarrow> promises w p = None))"

section \<open>The specification's schedule\<close>


section \<open>Properties of the schedule and of the timers\<close>

subsection \<open>Rounding to the nearest double\<close>

lemma expo_bounds:
  assumes "x \<noteq> 0"
  shows "2 powi expo x \<le> \<bar>x\<bar>" and "\<bar>x\<bar> < 2 powi (expo x + 1)"
proof -
  have "2 powi expo x \<le> \<bar>x\<bar> \<and> \<bar>x\<bar> < 2 powi (expo x + 1)"
  proof (cases "1 \<le> \<bar>x\<bar>")
    case True
    let ?a = "\<lfloor>\<bar>x\<bar>\<rfloor>"
    have a: "0 < ?a" using True by linarith
    from bitlen_bounds[OF a] have b: "2 ^ nat (bitlen ?a - 1) \<le> ?a" "?a < 2 ^ nat (bitlen ?a)" by auto
    have n: "0 \<le> bitlen ?a - 1" using a by (simp add: bitlen_alt_def)
    have e: "expo x = bitlen ?a - 1" using True by (simp add: expo_def)
    have "(2::rat) powi (bitlen ?a - 1) = 2 ^ nat (bitlen ?a - 1)"
      using n by (simp add: power_int_nonneg_exp)
    also have "\<dots> = of_int (2 ^ nat (bitlen ?a - 1))" by simp
    also have "\<dots> \<le> of_int ?a" using b(1) by (simp only: of_int_le_iff)
    also have "\<dots> \<le> \<bar>x\<bar>" by simp
    finally have l: "2 powi expo x \<le> \<bar>x\<bar>" by (simp add: e)
    have "?a + 1 \<le> 2 ^ nat (bitlen ?a)" using b(2) by simp
    then have "(of_int (?a + 1) :: rat) \<le> of_int (2 ^ nat (bitlen ?a))" by (simp only: of_int_le_iff)
    moreover have "\<bar>x\<bar> < of_int (?a + 1)" by linarith
    ultimately have "\<bar>x\<bar> < 2 ^ nat (bitlen ?a)" by simp
    moreover have "(2::rat) powi (expo x + 1) = 2 ^ nat (bitlen ?a)"
      using n by (simp add: e power_int_nonneg_exp)
    ultimately show ?thesis using l by simp
  next
    case False
    let ?y = "1 / \<bar>x\<bar>"
    let ?b = "\<lceil>?y\<rceil> - 1"
    have x: "0 < \<bar>x\<bar>" "\<bar>x\<bar> < 1" using assms False by auto
    have y: "1 < ?y" using x by (simp add: field_simps)
    have b0: "0 < ?b" using y by linarith
    have by1: "of_int ?b < ?y" by linarith
    have by2: "?y \<le> of_int (?b + 1)" by (simp add: le_of_int_ceiling)
    from bitlen_bounds[OF b0] have b: "2 ^ nat (bitlen ?b - 1) \<le> ?b" "?b < 2 ^ nat (bitlen ?b)" by auto
    have L: "1 \<le> bitlen ?b" using b0 by (simp add: bitlen_alt_def)
    have e: "expo x = - bitlen ?b" using False by (simp add: expo_def)
    have "?b + 1 \<le> 2 ^ nat (bitlen ?b)" using b(2) by simp
    then have "(of_int (?b + 1) :: rat) \<le> of_int (2 ^ nat (bitlen ?b))" by (simp only: of_int_le_iff)
    with by2 have "?y \<le> of_int (2 ^ nat (bitlen ?b))" by (rule order_trans)
    then have u: "?y \<le> 2 ^ nat (bitlen ?b)" by (simp only: of_int_power of_int_numeral)
    have "(of_int (2 ^ nat (bitlen ?b - 1)) :: rat) \<le> of_int ?b" using b(1) by (simp only: of_int_le_iff)
    from this by1 have "(of_int (2 ^ nat (bitlen ?b - 1)) :: rat) < ?y" by (rule le_less_trans)
    then have l: "2 ^ nat (bitlen ?b - 1) < ?y" by (simp only: of_int_power of_int_numeral)
    have p1: "(2::rat) powi expo x = 1 / 2 ^ nat (bitlen ?b)"
      using L by (simp add: e power_int_minus_divide power_int_nonneg_exp)
    have p2: "(2::rat) powi (expo x + 1) = 1 / 2 ^ nat (bitlen ?b - 1)"
    proof -
      have "expo x + 1 = - (bitlen ?b - 1)" by (simp add: e)
      then show ?thesis using L by (simp only: power_int_minus_divide) (simp add: power_int_nonneg_exp)
    qed
    have "1 / 2 ^ nat (bitlen ?b) \<le> \<bar>x\<bar>"
      using u x(1) by (simp add: field_simps)
    moreover have "\<bar>x\<bar> < 1 / 2 ^ nat (bitlen ?b - 1)"
      using l x(1) by (simp add: field_simps)
    ultimately show ?thesis by (simp add: p1 p2)
  qed
  then show "2 powi expo x \<le> \<bar>x\<bar>" and "\<bar>x\<bar> < 2 powi (expo x + 1)" by simp_all
qed

lemma expo_unique:
  assumes "2 powi n \<le> \<bar>x\<bar>" and "\<bar>x\<bar> < 2 powi (n + 1)"
  shows "expo x = n"
proof -
  have "(0::rat) < 2 powi n" by (simp add: zero_less_power_int)
  with assms(1) have "0 < \<bar>x\<bar>" by linarith
  then have "x \<noteq> 0" by auto
  note b = expo_bounds[OF this]
  have "\<not> expo x < n"
  proof
    assume "expo x < n"
    then have "(2::rat) powi (expo x + 1) \<le> 2 powi n" by (intro power_int_increasing) auto
    with b(2) assms(1) show False by linarith
  qed
  moreover have "\<not> n < expo x"
  proof
    assume "n < expo x"
    then have "(2::rat) powi (n + 1) \<le> 2 powi expo x" by (intro power_int_increasing) auto
    with b(1) assms(2) show False by linarith
  qed
  ultimately show ?thesis by simp
qed

lemma round_even_int: "round_even (of_int m) = m"
  by (simp add: round_even_def)

lemma round_even_mono:
  assumes "q \<le> q'" shows "round_even q \<le> round_even q'"
proof -
  have f: "\<lfloor>q\<rfloor> \<le> \<lfloor>q'\<rfloor>" using assms by (rule floor_mono)
  have u: "round_even q \<le> \<lfloor>q\<rfloor> + 1" by (simp add: round_even_def Let_def)
  have l: "\<lfloor>q'\<rfloor> \<le> round_even q'" by (simp add: round_even_def Let_def)
  show ?thesis
  proof (cases "\<lfloor>q\<rfloor> = \<lfloor>q'\<rfloor>")
    case True
    with assms show ?thesis by (auto simp: round_even_def Let_def)
  next
    case False
    with f have "\<lfloor>q\<rfloor> + 1 \<le> \<lfloor>q'\<rfloor>" by simp
    with u l show ?thesis by linarith
  qed
qed

lemma ulp_pos: "0 < ulp x"
  by (simp add: ulp_def zero_less_power_int)

lemma expo_scale:
  assumes "x \<noteq> 0" shows "expo (x * 2 powi j) = expo x + j"
proof (rule expo_unique)
  note b = expo_bounds[OF assms]
  have p: "(0::rat) < 2 powi j" by (simp add: zero_less_power_int)
  have a: "\<bar>x * 2 powi j\<bar> = \<bar>x\<bar> * 2 powi j" using p by (simp add: abs_mult)
  show "2 powi (expo x + j) \<le> \<bar>x * 2 powi j\<bar>"
    using b(1) p by (simp add: a power_int_add)
  have "\<bar>x\<bar> * 2 powi j < 2 powi (expo x + 1) * 2 powi j"
    using b(2) p by (simp add: mult_strict_right_mono)
  also have "\<dots> = 2 powi (expo x + j + 1)" by (simp add: power_int_add)
  finally show "\<bar>x * 2 powi j\<bar> < 2 powi (expo x + j + 1)" by (simp add: a)
qed

lemma expo_int_range:
  assumes "m \<noteq> 0" "\<bar>m\<bar> < 2 ^ 53"
  shows "0 \<le> expo (of_int m)" "expo (of_int m) \<le> 52"
proof -
  have x: "(of_int m :: rat) \<noteq> 0" using assms(1) by simp
  note b = expo_bounds[OF x]
  have 1: "(1::rat) \<le> \<bar>of_int m\<bar>" using assms(1) by (simp flip: of_int_abs) 
  have 2: "\<bar>of_int m :: rat\<bar> < 2 ^ 53"
  proof -
    have "(of_int \<bar>m\<bar> :: rat) < of_int (2 ^ 53)" using assms(2) by (simp only: of_int_less_iff)
    then show ?thesis by simp
  qed
  show "0 \<le> expo (of_int m)"
  proof (rule ccontr)
    assume "\<not> 0 \<le> expo (of_int m)"
    then have "expo (rat_of_int m) + 1 \<le> 0" by simp
    then have "(2::rat) powi (expo (rat_of_int m) + 1) \<le> 2 powi 0" by (intro power_int_increasing) auto
    with b(2) 1 show False by simp
  qed
  show "expo (of_int m) \<le> 52"
  proof (rule ccontr)
    assume "\<not> expo (of_int m) \<le> 52"
    then have "53 \<le> expo (rat_of_int m)" by simp
    then have "(2::rat) powi 53 \<le> 2 powi expo (rat_of_int m)" by (intro power_int_increasing) auto
    with b(1) 2 show False by simp
  qed
qed

lemma nearest_fixed:
  assumes "m \<noteq> 0" "\<bar>m\<bar> < 2 ^ 53" "- 1022 \<le> j"
  shows "nearest (of_int m * 2 powi j) = of_int m * 2 powi j"
proof -
  let ?x = "of_int m * 2 powi j :: rat"
  let ?e = "expo (of_int m)"
  have m: "(of_int m :: rat) \<noteq> 0" using assms(1) by simp
  have x: "?x \<noteq> 0" using m by simp
  note r = expo_int_range[OF assms(1,2)]
  have e: "expo ?x = ?e + j" using m by (rule expo_scale)
  have "max (?e + j - 52) (- 1074) = ?e + j - 52" using r(1) assms(3) by linarith
  then have u: "ulp ?x = 2 powi (?e + j - 52)" by (simp only: ulp_def e)
  have "?x / ulp ?x = of_int m * (2 powi j / 2 powi (?e + j - 52))" by (simp add: u)
  also have "2 powi j / 2 powi (?e + j - 52) = (2::rat) powi (52 - ?e)"
    by (simp add: power_int_diff[symmetric])
  also have "\<dots> = 2 ^ nat (52 - ?e)" using r(2) by (simp add: power_int_nonneg_exp)
  also have "of_int m * 2 ^ nat (52 - ?e) = (of_int (m * 2 ^ nat (52 - ?e)) :: rat)" by simp
  finally have q: "?x / ulp ?x = of_int (m * 2 ^ nat (52 - ?e))" .
  have "of_int (round_even (?x / ulp ?x)) * ulp ?x = ?x / ulp ?x * ulp ?x"
    by (simp only: q round_even_int)
  also have "\<dots> = ?x" using ulp_pos[of ?x] by simp
  finally show ?thesis using x by (simp add: nearest_def)
qed

lemma pow_split: "(2::rat) powi a * 2 powi b = 2 powi (a + b)"
  by (simp add: power_int_add)

lemma top_scale: "of_int (2 ^ 53) * (2::rat) powi (n - 52) = 2 powi (n + 1)"
proof -
  have "(of_int (2 ^ 53) :: rat) = 2 powi 53" by simp
  then have "of_int (2 ^ 53) * (2::rat) powi (n - 52) = 2 powi 53 * 2 powi (n - 52)" by (simp only:)
  also have "\<dots> = 2 powi (53 + (n - 52))" by (rule pow_split)
  also have "53 + (n - 52) = n + 1" by simp
  finally show ?thesis .
qed

lemma bottom_scale: "of_int (2 ^ 52) * (2::rat) powi (n - 52) = 2 powi n"
proof -
  have "(of_int (2 ^ 52) :: rat) = 2 powi 52" by simp
  then have "of_int (2 ^ 52) * (2::rat) powi (n - 52) = 2 powi 52 * 2 powi (n - 52)" by (simp only:)
  also have "\<dots> = 2 powi (52 + (n - 52))" by (rule pow_split)
  also have "52 + (n - 52) = n" by simp
  finally show ?thesis .
qed

lemma nearest_mono:
  assumes "2 powi (- 1022) \<le> x" "x \<le> y"
  shows "nearest x \<le> nearest y"
proof -
  have p: "(0::rat) < 2 powi (- 1022)" by (simp add: zero_less_power_int)
  have x0: "0 < x" and y0: "0 < y" using assms p by linarith+
  have xn: "x \<noteq> 0" and yn: "y \<noteq> 0" using x0 y0 by auto
  note bx = expo_bounds[OF xn] and bdy = expo_bounds[OF yn]
  let ?n = "expo x" and ?n' = "expo y"
  have n: "- 1022 \<le> ?n"
  proof (rule ccontr)
    assume "\<not> - 1022 \<le> ?n"
    then have "?n + 1 \<le> - 1022" by simp
    then have "(2::rat) powi (?n + 1) \<le> 2 powi (- 1022)" by (intro power_int_increasing) auto
    with bx(2) assms(1) x0 show False by simp
  qed
  have nn: "?n \<le> ?n'"
  proof (rule ccontr)
    assume "\<not> ?n \<le> ?n'"
    then have "?n' + 1 \<le> ?n" by simp
    then have "(2::rat) powi (?n' + 1) \<le> 2 powi ?n" by (intro power_int_increasing) auto
    with bdy(2) bx(1) assms(2) x0 y0 show False by simp
  qed
  have "max (?n - 52) (- 1074) = ?n - 52" using n by linarith
  then have ux: "ulp x = 2 powi (?n - 52)" by (simp only: ulp_def)
  have "max (?n' - 52) (- 1074) = ?n' - 52" using n nn by linarith
  then have uy: "ulp y = 2 powi (?n' - 52)" by (simp only: ulp_def)
  have nx: "nearest x = of_int (round_even (x / ulp x)) * ulp x" using xn by (simp add: nearest_def)
  have ny: "nearest y = of_int (round_even (y / ulp y)) * ulp y" using yn by (simp add: nearest_def)
  show ?thesis
  proof (cases "?n = ?n'")
    case True
    then have u: "ulp y = ulp x" by (simp add: ux uy)
    have "x / ulp x \<le> y / ulp x" using assms(2) ulp_pos[of x] by (simp add: divide_right_mono)
    then have "round_even (x / ulp x) \<le> round_even (y / ulp x)" by (rule round_even_mono)
    then have "(of_int (round_even (x / ulp x)) :: rat) \<le> of_int (round_even (y / ulp x))"
      by (simp only: of_int_le_iff)
    then show ?thesis using ulp_pos[of x] by (simp add: nx ny u mult_right_mono)
  next
    case False
    with nn have lt: "?n + 1 \<le> ?n'" by simp
    have "x / ulp x \<le> 2 powi (?n + 1) / ulp x"
      using bx(2) x0 ulp_pos[of x] by (simp add: divide_right_mono)
    also have "2 powi (?n + 1) / ulp x = (2::rat) powi 53"
      by (simp add: ux power_int_diff[symmetric])
    also have "\<dots> = of_int (2 ^ 53)" by simp
    finally have "round_even (x / ulp x) \<le> round_even (of_int (2 ^ 53))" by (rule round_even_mono)
    then have "round_even (x / ulp x) \<le> 2 ^ 53" by (simp only: round_even_int)
    then have "(of_int (round_even (x / ulp x)) :: rat) \<le> of_int (2 ^ 53)" by (simp only: of_int_le_iff)
    then have "nearest x \<le> of_int (2 ^ 53) * ulp x" using ulp_pos[of x] by (simp only: nx mult_right_mono)
    also have "\<dots> = 2 powi (?n + 1)" by (simp only: ux top_scale)
    finally have a: "nearest x \<le> 2 powi (?n + 1)" .
    have "2 powi ?n' / ulp y \<le> y / ulp y"
      using bdy(1) y0 ulp_pos[of y] by (simp add: divide_right_mono)
    moreover have "2 powi ?n' / ulp y = (2::rat) powi 52"
      by (simp add: uy power_int_diff[symmetric])
    moreover have "(2::rat) powi 52 = of_int (2 ^ 52)" by simp
    ultimately have "of_int (2 ^ 52) \<le> y / ulp y" by simp
    then have "round_even (of_int (2 ^ 52)) \<le> round_even (y / ulp y)" by (rule round_even_mono)
    then have "2 ^ 52 \<le> round_even (y / ulp y)" by (simp only: round_even_int)
    then have "(of_int (2 ^ 52) :: rat) \<le> of_int (round_even (y / ulp y))" by (simp only: of_int_le_iff)
    then have "of_int (2 ^ 52) * ulp y \<le> nearest y" using ulp_pos[of y] by (simp only: ny mult_right_mono)
    moreover have "of_int (2 ^ 52) * ulp y = 2 powi ?n'" by (simp only: uy bottom_scale)
    ultimately have b: "2 powi ?n' \<le> nearest y" by (simp only:)
    have "(2::rat) powi (?n + 1) \<le> 2 powi ?n'" using lt by (intro power_int_increasing) auto
    with a b show ?thesis by linarith
  qed
qed

lemma rd_int:
  assumes "\<bar>m\<bar> < 2 ^ 53" shows "rd (of_int m) = Finite (of_int m)"
proof (cases "m = 0")
  case True then show ?thesis by (simp add: rd_def nearest_def)
next
  case False
  from nearest_fixed[OF False assms, of 0] have n: "nearest (of_int m) = of_int m" by simp
  have "(of_int \<bar>m\<bar> :: rat) < of_int (2 ^ 53)" using assms by (simp only: of_int_less_iff)
  then have a: "\<bar>of_int m :: rat\<bar> < 2 ^ 53" by simp
  have "(2::rat) ^ 53 \<le> 2 ^ 1024" by (rule power_increasing) simp_all
  with a have "\<bar>of_int m :: rat\<bar> < 2 ^ 1024" by linarith
  then have "\<not> (2::rat) powi 1024 \<le> of_int m" "\<not> of_int m \<le> - ((2::rat) powi 1024)"
    by (simp_all only: power_int_numeral)
  then show ?thesis by (simp only: rd_def n Let_def if_False)
qed

lemma rd_fifth: "rd (2 / 10) = Finite (3602879701896397 / 18014398509481984)"
proof -
  have e: "expo (2 / 10) = - 3" by (rule expo_unique) simp_all
  have u: "ulp (2 / 10) = 2 powi (- 55)" by (simp only: ulp_def e) simp
  have q: "(2 / 10) / ulp (2 / 10) = 36028797018963968 / 5" by (simp only: u) simp
  have r: "round_even (36028797018963968 / 5) = 7205759403792794"
  proof -
    have "\<lfloor>36028797018963968 / 5 :: rat\<rfloor> = 7205759403792793" by (rule floor_unique) simp_all
    then show ?thesis by (simp add: round_even_def Let_def)
  qed
  have nz: "(2 / 10 :: rat) \<noteq> 0" by simp
  have "nearest (2 / 10) = of_int (round_even ((2 / 10) / ulp (2 / 10))) * ulp (2 / 10)"
    using nz by (simp only: nearest_def if_False)
  also have "\<dots> = of_int 7205759403792794 * ulp (2 / 10)" by (simp only: q r)
  also have "\<dots> = 3602879701896397 / 18014398509481984" by (simp only: u) simp
  finally have n: "nearest (2 / 10) = 3602879701896397 / 18014398509481984" .
  show ?thesis by (simp only: rd_def n Let_def) simp
qed

lemma rd_finite:
  assumes "0 \<le> nearest x" "nearest x < 2 ^ 53"
  shows "rd x = Finite (nearest x)"
proof -
  have "(2::rat) ^ 53 \<le> 2 ^ 1024" by (rule power_increasing) simp_all
  with assms(2) have "nearest x < 2 ^ 1024" by linarith
  moreover have "(0::rat) < 2 ^ 1024" by simp
  ultimately have "\<not> (2::rat) powi 1024 \<le> nearest x" "\<not> nearest x \<le> - ((2::rat) powi 1024)"
    using assms(1) by (simp_all only: power_int_numeral)
  then show ?thesis by (simp only: rd_def Let_def if_False)
qed

lemma tiny_le_eighth: "(2::rat) powi (- 1022) \<le> 1 / 8"
proof -
  have "(2::rat) powi (- 1022) \<le> 2 powi (- 3)" by (rule power_int_increasing) simp_all
  also have "(2::rat) powi (- 3) = 1 / 8" by (simp add: power_int_minus_divide)
  finally show ?thesis .
qed

lemma times_fifth:
  assumes "0 < e" "e \<le> 9000000000000"
  shows "js_floor (js_times (Finite (of_int e)) (rd (2 / 10))) = Finite (of_int (e div 5))"
proof -
  let ?c = "3602879701896397 / 18014398509481984 :: rat"
  let ?x = "of_int e * ?c"
  let ?k = "e div 5"
  have k0: "0 \<le> ?k" and k1: "?k \<le> 1800000000000" using assms by simp_all
  have ke: "5 * ?k \<le> e" "e \<le> 5 * ?k + 4" by simp_all
  have lo: "of_int ?k \<le> ?x"
  proof -
    have "(of_int (5 * ?k) :: rat) \<le> of_int e" using ke(1) by (simp only: of_int_le_iff)
    then have "(of_int ?k :: rat) \<le> of_int e / 5" by simp
    moreover have "(of_int e :: rat) / 5 \<le> ?x" using assms(1) by simp
    ultimately show ?thesis by linarith
  qed
  have hi: "?x \<le> of_int ?k + 7 / 8"
  proof -
    have a: "(of_int e :: rat) \<le> of_int (5 * ?k + 4)" using ke(2) by (simp only: of_int_le_iff)
    have b: "(of_int e :: rat) \<le> of_int 9000000000000" using assms(2) by (simp only: of_int_le_iff)
    have "?x = of_int e / 5 + of_int e / 90071992547409920" by simp
    with a b show ?thesis by simp
  qed
  have big: "(1::rat) / 8 \<le> ?x"
  proof -
    have "(of_int 1 :: rat) \<le> of_int e" using assms(1) by (simp only: of_int_le_iff)
    then show ?thesis by simp
  qed
  have f2: "nearest (of_int ?k + 7 / 8) = of_int ?k + 7 / 8"
  proof -
    have "8 * ?k + 7 \<noteq> 0" "\<bar>8 * ?k + 7\<bar> < 2 ^ 53" using k0 k1 by simp_all
    from nearest_fixed[OF this, of "- 3"]
    have "nearest (of_int (8 * ?k + 7) * 2 powi (- 3)) = of_int (8 * ?k + 7) * 2 powi (- 3)" by simp
    moreover have "(of_int (8 * ?k + 7) :: rat) * 2 powi (- 3) = of_int ?k + 7 / 8"
      by (simp add: power_int_minus_divide field_simps)
    ultimately show ?thesis by (simp only:)
  qed
  have tiny: "(2::rat) powi (- 1022) \<le> ?x" using tiny_le_eighth big by linarith
  from nearest_mono[OF tiny hi] have up: "nearest ?x \<le> of_int ?k + 7 / 8" by (simp only: f2)
  have low: "of_int ?k \<le> nearest ?x"
  proof (cases "?k = 0")
    case True
    from nearest_fixed[of 1 "- 3"] have "nearest (1 / 8) = 1 / 8"
      by (simp add: power_int_minus_divide)
    with nearest_mono[OF tiny_le_eighth big] have "1 / 8 \<le> nearest ?x" by (simp only:)
    with True show ?thesis by simp
  next
    case False
    with k0 have kp: "1 \<le> ?k" by linarith
    have "?k \<noteq> 0" "\<bar>?k\<bar> < 2 ^ 53" using kp k1 by simp_all
    from nearest_fixed[OF this, of 0] have fk: "nearest (of_int ?k) = of_int ?k" by simp
    have "(of_int 1 :: rat) \<le> of_int ?k" using kp by (simp only: of_int_le_iff)
    then have "(1::rat) / 8 \<le> of_int ?k" by simp
    with tiny_le_eighth have "(2::rat) powi (- 1022) \<le> of_int ?k" by linarith
    from nearest_mono[OF this lo] show ?thesis by (simp only: fk)
  qed
  have fl: "\<lfloor>nearest ?x\<rfloor> = ?k"
    by (rule floor_unique) (use low up in linarith)+
  have nn: "0 \<le> nearest ?x" using low k0 by (simp add: order_trans[OF _ low])
  have "(of_int ?k :: rat) \<le> of_int 1800000000000" using k1 by (simp only: of_int_le_iff)
  with up have "nearest ?x < 2 ^ 53" by simp
  with nn have "rd ?x = Finite (nearest ?x)" by (rule rd_finite)
  then show ?thesis by (simp only: rd_fifth js_times.simps js_floor.simps fl)
qed

lemma fallback: "js_times (Finite 30) (Finite 60) = Finite 1800"
  using rd_int[of 1800] by simp

lemma refreshIn_whole:
  assumes "0 < e" "e \<le> 9000000000000"
  shows "refreshIn (Some (Finite (of_int e))) = Finite (of_int ((e - max 60 (e div 5)) * 1000))"
proof -
  let ?rb = "max 60 (e div 5)"
  have t: "js_truthy (Finite (of_int e))" using assms(1) by simp
  have rb: "js_max (Finite 60) (Finite (of_int (e div 5))) = Finite (of_int ?rb)"
    by (simp add: max_def)
  have b: "60 \<le> ?rb" "?rb \<le> 1800000000000" using assms by simp_all
  have p53: "(2::int) ^ 53 = 9007199254740992" by simp
  have d: "\<bar>e - ?rb\<bar> < 2 ^ 53" using assms b unfolding p53 by linarith
  define t where "t = e - ?rb"
  have "- 1800000000000 \<le> t" "t \<le> 9000000000000" using assms b by (simp_all only: t_def)
  then have "\<bar>t * 1000\<bar> < 2 ^ 53" unfolding p53 by linarith
  then have m: "\<bar>(e - ?rb) * 1000\<bar> < 2 ^ 53" by (simp only: t_def)
  have "js_minus (Finite (of_int e)) (Finite (of_int ?rb)) = rd (of_int (e - ?rb))"
    by (simp only: js_minus.simps of_int_diff)
  also have "\<dots> = Finite (of_int (e - ?rb))" using d by (rule rd_int)
  finally have s: "js_minus (Finite (of_int e)) (Finite (of_int ?rb)) = Finite (of_int (e - ?rb))" .
  have "js_times (Finite (of_int (e - ?rb))) (Finite 1000) = rd (of_int ((e - ?rb) * 1000))"
    by (simp only: js_times.simps) simp
  also have "\<dots> = Finite (of_int ((e - ?rb) * 1000))" using m by (rule rd_int)
  finally have p: "js_times (Finite (of_int (e - ?rb))) (Finite 1000) = Finite (of_int ((e - ?rb) * 1000))" .
  show ?thesis
    by (simp only: refreshIn_def Let_def option.case t if_True times_fifth[OF assms] rb s p)
qed

lemma refreshIn_default: "refreshIn None = Finite 1440000" "refreshIn (Some (Finite 0)) = Finite 1440000"
proof -
  have t: "js_truthy (Finite 1800)" "\<not> js_truthy (Finite 0)" by simp_all
  have w: "refreshIn (Some (Finite 1800)) = Finite 1440000" using refreshIn_whole[of 1800] by simp
  have "refreshIn None = refreshIn (Some (Finite 1800))"
    by (simp only: refreshIn_def Let_def option.case fallback t if_True)
  then show "refreshIn None = Finite 1440000" by (simp only: w)
  have "refreshIn (Some (Finite 0)) = refreshIn (Some (Finite 1800))"
    by (simp only: refreshIn_def Let_def option.case fallback t if_True if_False)
  then show "refreshIn (Some (Finite 0)) = Finite 1440000" by (simp only: w)
qed

lemma round_even_down:
  assumes "of_int f \<le> q" "q - of_int f < 1 / 2" shows "round_even q = f"
proof -
  have "\<lfloor>q\<rfloor> = f" by (rule floor_unique) (use assms in linarith)+
  then show ?thesis using assms by (simp add: round_even_def Let_def)
qed

lemma round_even_up:
  assumes "1 / 2 < q - of_int f" "q < of_int f + 1" shows "round_even q = f + 1"
proof -
  have "\<lfloor>q\<rfloor> = f" by (rule floor_unique) (use assms in linarith)+
  then show ?thesis using assms by (simp add: round_even_def Let_def)
qed

lemma rd_rounds: "rd 7205759403792793000 = Finite 7205759403792792576"
proof -
  have e: "expo 7205759403792793000 = 62" by (rule expo_unique) simp_all
  have u: "ulp 7205759403792793000 = 1024" by (simp only: ulp_def e) simp
  have r: "round_even (7205759403792793000 / 1024) = 7036874417766399"
    by (rule round_even_down) simp_all
  have nz: "(7205759403792793000 :: rat) \<noteq> 0" by simp
  have "nearest 7205759403792793000 =
          of_int (round_even (7205759403792793000 / ulp 7205759403792793000)) * ulp 7205759403792793000"
    using nz by (simp only: nearest_def if_False)
  also have "\<dots> = 7205759403792792576" by (simp only: u r)
  finally have n: "nearest 7205759403792793000 = 7205759403792792576" .
  show ?thesis by (simp only: rd_def n Let_def) simp
qed

lemma refreshIn_large: "refreshIn (Some (Finite 9007199254740991)) = Finite 7205759403792792576"
proof -
  let ?c = "3602879701896397 / 18014398509481984 :: rat"
  let ?x = "9007199254740991 * ?c"
  have lo: "of_int 1801439850948198 \<le> ?x" by simp
  have hi: "?x \<le> of_int 3602879701896397 * 2 powi (- 1)" by (simp add: power_int_minus_divide)
  have f1: "nearest (of_int 1801439850948198) = of_int 1801439850948198"
    using nearest_fixed[of 1801439850948198 0] by simp
  have f2: "nearest (of_int 3602879701896397 * 2 powi (- 1)) = of_int 3602879701896397 * 2 powi (- 1)"
    by (rule nearest_fixed) simp_all
  have t1: "(2::rat) powi (- 1022) \<le> of_int 1801439850948198" using tiny_le_eighth by simp
  have t2: "(2::rat) powi (- 1022) \<le> ?x" using t1 lo by linarith
  from nearest_mono[OF t1 lo] have low: "1801439850948198 \<le> nearest ?x" by (simp only: f1)
  from nearest_mono[OF t2 hi] have up: "nearest ?x \<le> 1801439850948198 + 1 / 2"
    by (simp only: f2) (simp add: power_int_minus_divide)
  have fl: "\<lfloor>nearest ?x\<rfloor> = 1801439850948198"
    by (rule floor_unique) (use low up in simp_all)
  have "rd ?x = Finite (nearest ?x)" by (rule rd_finite) (use low up in simp_all)
  then have a: "js_floor (js_times (Finite 9007199254740991) (rd (2 / 10))) = Finite 1801439850948198"
    by (simp only: rd_fifth js_times.simps js_floor.simps fl) simp
  have b: "js_max (Finite 60) (Finite 1801439850948198) = Finite 1801439850948198" by simp
  have c: "js_minus (Finite 9007199254740991) (Finite 1801439850948198) = Finite 7205759403792793"
    using rd_int[of 7205759403792793] by simp
  have d: "js_times (Finite 7205759403792793) (Finite 1000) = Finite 7205759403792792576"
    using rd_rounds by simp
  have t: "js_truthy (Finite 9007199254740991)" by simp
  show ?thesis
    by (simp only: refreshIn_def Let_def option.case t if_True a b c d)
qed

lemma refreshIn_values:
  "refreshIn (Some (Finite 1800)) = Finite 1440000"
  "refreshIn (Some (Finite 120)) = Finite 60000"
  "refreshIn (Some (Finite 1801)) = Finite 1441000"
  using refreshIn_whole[of 1800] refreshIn_whole[of 120] refreshIn_whole[of 1801] by simp_all

subsection \<open>The service invariant\<close>

lemma wf_constructor: "wf constructor"
  by (simp add: wf_def constructor_def)

lemma wf_emit: "wf w \<Longrightarrow> wf (emit e w)"
  by (simp add: wf_def emit_def)

lemma wf_timers:
  assumes "wf w"
  shows "(timers w = [] \<or> (\<exists>h d. timers w = [(h, d)] \<and> tokenRefreshTimeout w = Some h))"
proof (cases "timers w")
  case Nil then show ?thesis by simp
next
  case (Cons t ts)
  with assms have "ts = []" by (simp add: wf_def)
  moreover from assms Cons have "tokenRefreshTimeout w = Some (fst t)" by (simp add: wf_def)
  ultimately show ?thesis using Cons by (cases t) auto
qed

lemma wf_handle: "wf w \<Longrightarrow> tokenRefreshTimeout w = Some h \<Longrightarrow> h \<noteq> 0"
  by (auto simp: wf_def)

lemma timers_schedule:
  assumes "wf w"
  shows "timers (scheduleTokenRefresh d w) = [(Suc (next_handle w), d)]"
  using wf_timers[OF assms] wf_handle[OF assms]
  by (auto simp: scheduleTokenRefresh_def setTimeout_def clearTimeout_def emit_def Let_def split: option.splits)

lemma schedule_fields:
  "tokenRefreshTimeout (scheduleTokenRefresh d w) = Some (Suc (next_handle w))"
  "refreshPromise (scheduleTokenRefresh d w) = refreshPromise w"
  "promises (scheduleTokenRefresh d w) = promises w"
  "next_promise (scheduleTokenRefresh d w) = next_promise w"
  "outstanding (scheduleTokenRefresh d w) = outstanding w"
  "accessToken (scheduleTokenRefresh d w) = accessToken w"
  by (auto simp: scheduleTokenRefresh_def setTimeout_def clearTimeout_def emit_def Let_def split: option.splits)

lemma wf_schedule: "wf w \<Longrightarrow> wf (scheduleTokenRefresh d w)"
  using timers_schedule[of w d] unfolding wf_def by (simp add: schedule_fields)

lemma wf_token: "wf w \<Longrightarrow> wf (w\<lparr>accessToken := t\<rparr>)"
  by (simp add: wf_def)

lemma wf_login_call: "wf w \<Longrightarrow> wf (login_call base u p w)"
  by (simp add: login_call_def wf_emit)

lemma wf_login_settle: "wf w \<Longrightarrow> wf (snd (login_settle res w))"
  by (auto simp: login_settle_def wf_schedule wf_token split: settled.splits)

lemma wf_outstanding:
  assumes "wf w"
  shows "outstanding w = [] \<or> (\<exists>p. outstanding w = [p] \<and> refreshPromise w = Some p \<and> promises w p = None)"
proof (cases "outstanding w")
  case Nil then show ?thesis by simp
next
  case (Cons p ps)
  with assms have "ps = []" by (simp add: wf_def)
  moreover from assms Cons have "refreshPromise w = Some p" by (simp add: wf_def)
  moreover from assms Cons this have "promises w p = None" by (simp add: wf_def)
  ultimately show ?thesis using Cons by auto
qed

lemma wf_refresh_call: 
  assumes "wf w" shows "wf (snd (refreshAccessToken base w))"
proof (cases "refreshPromise w")
  case None
  with wf_outstanding[OF assms] have "outstanding w = []" by auto
  with assms None show ?thesis
    by (auto simp: refreshAccessToken_def wf_def emit_def Let_def)
next
  case (Some p)
  with assms show ?thesis by (simp add: refreshAccessToken_def)
qed

lemma wf_settle_promise:
  assumes "wf w" "p \<in> set (outstanding w)" "refreshPromise w' = None \<or> (refreshPromise w' = Some p \<and> (\<exists>e. v = Rejected e))"
   "timers w' = timers w" "tokenRefreshTimeout w' = tokenRefreshTimeout w" "outstanding w' = outstanding w"
   "promises w' = promises w" "next_promise w' = next_promise w"
  shows "wf (snd (settle_promise p v w'))"
proof -
  from wf_outstanding[OF assms(1)] assms(2) have o: "outstanding w = [p]" "refreshPromise w = Some p" by auto
  with assms show ?thesis
    by (auto simp: settle_promise_def wf_def)
qed

lemma wf_refresh_settle:
  assumes "wf w" "p \<in> set (outstanding w)" 
  shows "wf (snd (refreshAccessToken_settle p res w))"
proof -
  from wf_outstanding[OF assms(1)] assms(2) have o: "outstanding w = [p]" "refreshPromise w = Some p" by auto
  show ?thesis
  proof (cases res)
    case (Rejected e)
    then show ?thesis using wf_settle_promise[OF assms, of w] o by (simp add: refreshAccessToken_settle_def)
  next
    case (Fulfilled r)
    show ?thesis
    proof (cases "ok r")
      case False
      then show ?thesis using Fulfilled wf_settle_promise[OF assms, of "w\<lparr>refreshPromise := None\<rparr>"]
        by (simp add: refreshAccessToken_settle_def)
    next
      case True
      show ?thesis
      proof (cases "json r")
        case (Rejected e)
        then show ?thesis using True Fulfilled wf_settle_promise[OF assms, of w] o by (simp add: refreshAccessToken_settle_def)
      next
        case (Fulfilled data)
        let ?w2 = "scheduleTokenRefresh (refreshIn (expires_in data)) (w\<lparr>accessToken := access_token data\<rparr>)"
        have w2: "wf ?w2" by (simp add: wf_schedule wf_token assms)
        have "p \<in> set (outstanding ?w2)" using assms(2) by (simp add: schedule_fields)
        from wf_settle_promise[OF w2 this, of "?w2\<lparr>refreshPromise := None\<rparr>"]
        show ?thesis using True Fulfilled \<open>res = Fulfilled r\<close>
          by (simp add: refreshAccessToken_settle_def Let_def)
      qed
    qed
  qed
qed

lemma wf_logout_settle: assumes "wf w" shows "wf (logout_settle res w)"
proof -
  let ?w1 = "(case res of Rejected e \<Rightarrow> emit (ConsoleError ''Logout request failed:'') w | Fulfilled r \<Rightarrow> w)"
  have 1: "wf ?w1" using assms by (auto split: settled.splits simp: wf_emit)
  then have 2: "wf (?w1\<lparr>accessToken := None\<rparr>)" by (rule wf_token)
  show ?thesis using 2 wf_timers[OF 2]
    by (auto simp: logout_settle_def Let_def wf_def clearTimeout_def emit_def split: option.splits)
qed

lemma wf_fire: assumes "wf w" shows "wf (w\<lparr>timers := filter (\<lambda>t. fst t \<noteq> h) (timers w)\<rparr>)"
  using assms wf_timers[OF assms] by (auto simp: wf_def)

lemma wf_step: "wf w \<Longrightarrow> wf (step base w a)"
  by (cases a) (simp_all add: wf_login_call wf_login_settle wf_refresh_call wf_refresh_settle
      wf_schedule wf_fire wf_emit force_logout_def logout_call_def send_def wf_logout_settle)

lemma wf_foldl: "wf w \<Longrightarrow> wf (foldl (step base) w acts)"
  by (induction acts arbitrary: w) (simp_all add: wf_step)

lemma wf_run: "wf (run base acts)"
  by (simp add: run_def wf_foldl wf_constructor)

lemma schedule_log:
  "log (scheduleTokenRefresh d w) =
     log w @ map ClearTimeout (case tokenRefreshTimeout w of None \<Rightarrow> [] | Some h \<Rightarrow> if h \<noteq> 0 then [h] else [])
       @ [SetTimeout (Suc (next_handle w)) d]"
  by (auto simp: scheduleTokenRefresh_def setTimeout_def clearTimeout_def emit_def Let_def split: option.splits)





text \<open>
  C8. In every state the service reaches, at most one refresh timeout is pending and it
  is the one held in \<^verbatim>\<open>tokenRefreshTimeout\<close>. A call of \<^verbatim>\<open>scheduleTokenRefresh\<close>
  there clears the held handle first and arms the new timeout after it, and the new
  timeout is then the only pending one.
\<close>

theorem scheduleTokenRefresh_single_timer:
  "let w = run base acts;
       w' = scheduleTokenRefresh delay w;
       h' = Suc (next_handle w)
   in length (timers w) \<le> 1 \<and>
      set (map fst (timers w)) \<subseteq> set_option (tokenRefreshTimeout w) \<and>
      log w' = log w @ map ClearTimeout (case tokenRefreshTimeout w of None \<Rightarrow> [] | Some h \<Rightarrow> [h])
                 @ [SetTimeout h' delay] \<and>
      timers w' = [(h', delay)] \<and> tokenRefreshTimeout w' = Some h'"
proof -
  have w: "wf (run base acts)" by (rule wf_run)
  have 1: "length (timers (run base acts)) \<le> 1" using w by (simp add: wf_def)
  have 2: "set (map fst (timers (run base acts))) \<subseteq> set_option (tokenRefreshTimeout (run base acts))"
    using w by (auto simp: wf_def)
  have 3: "(case tokenRefreshTimeout (run base acts) of None \<Rightarrow> [] | Some h \<Rightarrow> if h \<noteq> 0 then [h] else [])
         = (case tokenRefreshTimeout (run base acts) of None \<Rightarrow> [] | Some h \<Rightarrow> [h])"
    using wf_handle[OF w] by (auto split: option.splits)
  show ?thesis
    using 1 2 3 by (simp add: Let_def schedule_log timers_schedule[OF w] schedule_fields)
qed

section \<open>Properties of the refresh, the logout and the authorized request\<close>

lemma refresh_marker_set: "refreshPromise w = Some p \<Longrightarrow> refreshAccessToken base w = (p, w)"
  by (simp add: refreshAccessToken_def)

lemma calls_marker_set: "refreshPromise w = Some p \<Longrightarrow> calls base n w = (replicate n p, w)"
  by (induction n) (simp_all add: refresh_marker_set)

lemma refresh_marker_unset:
  "refreshPromise w = None \<Longrightarrow>
     fst (refreshAccessToken base w) = Suc (next_promise w) \<and>
     refreshPromise (snd (refreshAccessToken base w)) = Some (Suc (next_promise w)) \<and>
     fetches (base @ ''/auth/refresh'') (snd (refreshAccessToken base w)) =
       Suc (fetches (base @ ''/auth/refresh'') w)"
  by (simp add: refreshAccessToken_def fetches_def emit_def Let_def)

lemma settle_stores:
  "refreshAccessToken_settle p res w = (v, w') \<Longrightarrow> promises w' p = Some v"
  by (auto simp: refreshAccessToken_settle_def settle_promise_def Let_def split: settled.splits if_splits)

lemma await_settled:
  assumes "await_refresh p res w = (v, w')"
  shows "await_refresh p res' w' = (v, w')"
proof (cases "promises w p")
  case None
  with assms have "refreshAccessToken_settle p res w = (v, w')" by (simp add: await_refresh_def)
  then have "promises w' p = Some v" by (rule settle_stores)
  then show ?thesis by (simp add: await_refresh_def)
next
  case (Some u)
  with assms show ?thesis by (auto simp: await_refresh_def)
qed

text \<open>
  C2. In every state the service reaches at most one refresh network call is
  outstanding. Of any number of calls of \<^verbatim>\<open>refreshAccessToken\<close> in a row, only the first
  can issue a network call, and only when no marker is set; every caller gets the same
  promise \<open>p\<close>, which the marker then holds; a caller that finds the marker set changes
  nothing. Once \<open>p\<close> has settled with \<open>v\<close>, every await of it yields \<open>v\<close>, whatever
  the network does afterwards.
\<close>

theorem refresh_single_flight:
  "let w = run base acts;
       (ps, w') = calls base (Suc n) w;
       p = hd ps;
       (v, w'') = await_refresh p res w'
   in length (outstanding w) \<le> 1 \<and> length (outstanding w') \<le> 1 \<and>
      ps = replicate (Suc n) p \<and> refreshPromise w' = Some p \<and>
      fetches (base @ ''/auth/refresh'') w' =
        fetches (base @ ''/auth/refresh'') w + (if refreshPromise w = None then 1 else 0) \<and>
      (\<forall>q. refreshPromise w = Some q \<longrightarrow> p = q \<and> w' = w) \<and>
      (\<forall>res'. await_refresh p res' w'' = (v, w''))"
proof -
  let ?w = "run base acts"
  have wf: "wf ?w" by (rule wf_run)
  obtain ps w' where c: "calls base (Suc n) ?w = (ps, w')" by (cases "calls base (Suc n) ?w")
  obtain v w'' where a: "await_refresh (hd ps) res w' = (v, w'')" by (cases "await_refresh (hd ps) res w'")
  have o: "length (outstanding ?w) \<le> 1" using wf by (simp add: wf_def)
  have main: "length (outstanding w') \<le> 1 \<and> ps = replicate (Suc n) (hd ps) \<and> refreshPromise w' = Some (hd ps) \<and>
      fetches (base @ ''/auth/refresh'') w' =
        fetches (base @ ''/auth/refresh'') ?w + (if refreshPromise ?w = None then 1 else 0) \<and>
      (\<forall>q. refreshPromise ?w = Some q \<longrightarrow> hd ps = q \<and> w' = ?w)"
  proof (cases "refreshPromise ?w")
    case (Some q)
    from c calls_marker_set[OF Some, of base "Suc n"]
    have "ps = replicate (Suc n) q" "w' = ?w" by (simp_all del: calls.simps)
    with Some o show ?thesis by simp
  next
    case None
    obtain p w1 where r: "refreshAccessToken base ?w = (p, w1)" by (cases "refreshAccessToken base ?w")
    from refresh_marker_unset[OF None, of base] r
    have m: "refreshPromise w1 = Some p" "fetches (base @ ''/auth/refresh'') w1 = Suc (fetches (base @ ''/auth/refresh'') ?w)"
      by simp_all
    have "wf w1" using wf_refresh_call[OF wf, of base] r by simp
    then have o1: "length (outstanding w1) \<le> 1" by (simp add: wf_def)
    from c r have "ps = p # replicate n p" "w' = w1"
      by (simp_all add: calls_marker_set[OF m(1)])
    with m o1 None show ?thesis by simp
  qed
  from await_settled[OF a] have "\<forall>res'. await_refresh (hd ps) res' w'' = (v, w'')" by blast
  with main o show ?thesis
    by (simp only: Let_def c a prod.case) simp
qed

text \<open>
  C2 at one outstanding refresh and three further callers.
\<close>

theorem refresh_single_flight_witness:
  "refreshPromise (run ''/api'' [Refresh_call]) = Some 1 \<and>
   calls ''/api'' 3 (run ''/api'' [Refresh_call]) = ([1, 1, 1], run ''/api'' [Refresh_call]) \<and>
   fetches ''/api/auth/refresh'' (run ''/api'' [Refresh_call]) = 1"
proof -
  let ?w = "run ''/api'' [Refresh_call]"
  have r: "refreshPromise ?w = Some 1"
    by (simp add: run_def refreshAccessToken_def constructor_def emit_def Let_def)
  have f: "fetches ''/api/auth/refresh'' ?w = 1"
    by (simp add: run_def refreshAccessToken_def constructor_def emit_def Let_def fetches_def)
  obtain ps w' where c: "calls ''/api'' (Suc 2) ?w = (ps, w')" by (cases "calls ''/api'' (Suc 2) ?w")
  obtain v w'' where a: "await_refresh (hd ps) (Rejected (Error [])) w' = (v, w'')"
    by (cases "await_refresh (hd ps) (Rejected (Error [])) w'")
  from refresh_single_flight[where base = "''/api''" and n = 2 and acts = "[Refresh_call]"
        and res = "Rejected (Error [])"]
  have "ps = replicate (Suc 2) (hd ps) \<and> (\<forall>q. refreshPromise ?w = Some q \<longrightarrow> hd ps = q \<and> w' = ?w)"
    by (simp only: Let_def c a prod.case) simp
  with r have "ps = replicate (Suc 2) 1" "w' = ?w" by auto
  with c have "calls ''/api'' 3 ?w = ([1, 1, 1], ?w)"
    by (simp only: numeral_3_eq_3 replicate.simps) (simp add: numeral_2_eq_2)
  with r f show ?thesis by simp
qed

lemma logout_settle_fields:
  assumes "wf w"
  shows "accessToken (logout_settle res w) = None" "tokenRefreshTimeout (logout_settle res w) = None"
    "timers (logout_settle res w) = []"
  using wf_timers[OF assms] wf_handle[OF assms]
  by (auto simp: logout_settle_def clearTimeout_def emit_def Let_def split: option.splits settled.splits)

lemma logout_settle_cleared:
  assumes "accessToken w = None" "tokenRefreshTimeout w = None"
  shows "(logout_settle res w)\<lparr>log := []\<rparr> = w\<lparr>log := []\<rparr>"
  using assms by (auto simp: logout_settle_def emit_def Let_def split: settled.splits)

text \<open>
  C10. After \<^verbatim>\<open>logout\<close> in any state the service reaches, and whatever the outcome
  \<open>res\<close> of the revocation request, the token is null, the timer field is null and no
  timeout is pending; a second \<^verbatim>\<open>logout\<close> changes nothing but the log of requests.
\<close>

theorem logout_idempotent:
  "let w = run base acts;
       w1 = logout base res w;
       w2 = logout base res' w1
   in accessToken w1 = None \<and> tokenRefreshTimeout w1 = None \<and> timers w1 = [] \<and>
      w2\<lparr>log := []\<rparr> = w1\<lparr>log := []\<rparr>"
proof -
  have wf: "wf (logout_call base (run base acts))"
    by (simp add: logout_call_def wf_emit wf_run)
  note f = logout_settle_fields[OF wf, of res]
  have "(logout base res' (logout base res (run base acts)))\<lparr>log := []\<rparr>
          = (logout_call base (logout base res (run base acts)))\<lparr>log := []\<rparr>"
    unfolding logout_def[of base res']
  proof (rule logout_settle_cleared)
    show "accessToken (logout_call base (logout base res (run base acts))) = None"
      using f(1) by (simp add: logout_call_def emit_def logout_def)
    show "tokenRefreshTimeout (logout_call base (logout base res (run base acts))) = None"
      using f(2) by (simp add: logout_call_def emit_def logout_def)
  qed
  also have "\<dots> = (logout base res (run base acts))\<lparr>log := []\<rparr>"
    by (simp add: logout_call_def emit_def)
  finally show ?thesis using f by (simp add: Let_def logout_def)
qed

lemma schedule_log_timer:
  "\<exists>tev. log (scheduleTokenRefresh d w) = log w @ tev \<and> list_all timer_event tev"
  by (simp add: schedule_log split: option.splits)

lemma settle_log:
  "\<exists>tev. log (snd (refreshAccessToken_settle p res w)) = log w @ tev \<and> list_all timer_event tev"
proof -
  have e: "\<exists>tev. log w = log w @ tev \<and> list_all timer_event tev" by simp
  show ?thesis
    using e schedule_log_timer[of _ "w\<lparr>accessToken := a\<rparr>" for a]
    by (auto simp: refreshAccessToken_settle_def settle_promise_def Let_def split: settled.splits)
qed

lemma await_log:
  "\<exists>tev. log (snd (await_refresh p res w)) = log w @ tev \<and> list_all timer_event tev"
proof (cases "promises w p")
  case None
  then show ?thesis using settle_log[of p res w] by (simp add: await_refresh_def)
next
  case (Some v)
  then show ?thesis by (simp add: await_refresh_def)
qed

lemma settle_fulfilled:
  assumes "refreshAccessToken_settle p rres w = (Fulfilled data, w3)"
  shows "\<exists>rr. rres = Fulfilled rr \<and> ok rr \<and> json rr = Fulfilled data \<and> accessToken w3 = access_token data"
  using assms
  by (auto simp: refreshAccessToken_settle_def settle_promise_def Let_def schedule_fields
      split: settled.splits if_splits)

lemma await_fulfilled:
  assumes "wf w" "refreshPromise w = Some p" "await_refresh p rres w = (Fulfilled data, w3)"
  shows "\<exists>rr. rres = Fulfilled rr \<and> ok rr \<and> json rr = Fulfilled data \<and> accessToken w3 = access_token data"
proof (cases "promises w p")
  case None
  with assms(3) show ?thesis by (simp add: await_refresh_def settle_fulfilled)
next
  case (Some v)
  with assms(3) have "promises w p = Some (Fulfilled data)" by (simp add: await_refresh_def)
  with assms(1,2) show ?thesis by (simp add: wf_def)
qed

lemma refresh_call_log:
  "log (snd (refreshAccessToken base w)) =
     log w @ (if refreshPromise w = None
              then [Fetch (base @ ''/auth/refresh'')
                      \<lparr>http_method = Some ''POST'', headers = [], payload = None,
                       credentials = Some ''include''\<rparr>]
              else [])"
  by (auto simp: refreshAccessToken_def emit_def Let_def)

lemma refresh_call_marker: "refreshPromise (snd (refreshAccessToken base w)) = Some (fst (refreshAccessToken base w))"
  by (auto simp: refreshAccessToken_def emit_def Let_def split: option.splits)

lemma force_logout_log:
  "log (force_logout base w) =
     log w @ [Fetch (base @ ''/auth/logout'')
               \<lparr>http_method = Some ''POST'', headers = [], payload = None,
                credentials = Some ''include''\<rparr>, Redirect ''/login'']"
  by (simp add: force_logout_def logout_call_def emit_def)

lemma send_log:
  "log (send base url options hs w) =
     log w @ [Fetch (resolveUrl base url) (options\<lparr>headers := hs, credentials := Some ''include''\<rparr>)]"
  by (simp add: send_def emit_def)

lemma attach_send: "attach (send base url options hs w) = attach w"
  by (rule ext) (simp add: attach_def send_def emit_def)

lemma wf_send: "wf w \<Longrightarrow> wf (send base url options hs w)"
  by (simp add: send_def wf_emit)

lemma refresh_call_send: "refreshPromise (send base url options hs w) = refreshPromise w"
  by (simp add: send_def emit_def)

lemma send_token: "accessToken (send base url options hs w) = accessToken w"
  by (simp add: send_def emit_def)

lemma force_logout_token: "accessToken (force_logout base w) = accessToken w"
  by (simp add: force_logout_def logout_call_def emit_def)

lemma attach_force_logout: "attach (force_logout base w) = attach w"
  by (rule ext) (simp add: attach_def force_logout_def logout_call_def emit_def)

lemma settle_outcome: "fst (refreshAccessToken_settle p rres w) = refresh_outcome rres"
  by (auto simp: refreshAccessToken_settle_def refresh_outcome_def settle_promise_def Let_def
      split: settled.splits)

lemma settle_rejected_log:
  "refresh_outcome rres = Rejected e \<Longrightarrow> log (snd (refreshAccessToken_settle p rres w)) = log w"
  by (auto simp: refreshAccessToken_settle_def refresh_outcome_def settle_promise_def Let_def
      split: settled.splits if_splits)

lemma settle_fulfilled_log:
  assumes "refresh_outcome rres = Fulfilled data" "\<forall>h. tokenRefreshTimeout w = Some h \<longrightarrow> h \<noteq> 0"
  shows "log (snd (refreshAccessToken_settle p rres w)) =
           log w @ map ClearTimeout (case tokenRefreshTimeout w of None \<Rightarrow> [] | Some h \<Rightarrow> [h])
             @ [SetTimeout (Suc (next_handle w)) (refreshIn (expires_in data))]"
    and "accessToken (snd (refreshAccessToken_settle p rres w)) = access_token data"
proof -
  have c: "(case tokenRefreshTimeout w of None \<Rightarrow> [] | Some h \<Rightarrow> if h \<noteq> 0 then [h] else [])
         = (case tokenRefreshTimeout w of None \<Rightarrow> [] | Some h \<Rightarrow> [h])"
    using assms(2) by (auto split: option.splits)
  show "log (snd (refreshAccessToken_settle p rres w)) =
           log w @ map ClearTimeout (case tokenRefreshTimeout w of None \<Rightarrow> [] | Some h \<Rightarrow> [h])
             @ [SetTimeout (Suc (next_handle w)) (refreshIn (expires_in data))]"
    using assms(1) c
    by (auto simp: refreshAccessToken_settle_def refresh_outcome_def settle_promise_def Let_def
        schedule_log split: settled.splits if_splits)
  show "accessToken (snd (refreshAccessToken_settle p rres w)) = access_token data"
    using assms(1)
    by (auto simp: refreshAccessToken_settle_def refresh_outcome_def settle_promise_def Let_def
        schedule_fields split: settled.splits if_splits)
qed

lemma call_fields:
  "tokenRefreshTimeout (snd (refreshAccessToken base w)) = tokenRefreshTimeout w"
  "next_handle (snd (refreshAccessToken base w)) = next_handle w"
  "refreshPromise w = Some p \<Longrightarrow> snd (refreshAccessToken base w) = w"
  "refreshPromise w = Some p \<Longrightarrow> fst (refreshAccessToken base w) = p"
  "refreshPromise w = None \<Longrightarrow> fst (refreshAccessToken base w) = Suc (next_promise w)"
  "refreshPromise w = None \<Longrightarrow> promises (snd (refreshAccessToken base w)) = promises w"
  by (auto simp: refreshAccessToken_def emit_def Let_def split: option.splits)

lemma send_fields:
  "tokenRefreshTimeout (send base url options hs w) = tokenRefreshTimeout w"
  "next_handle (send base url options hs w) = next_handle w"
  "next_promise (send base url options hs w) = next_promise w"
  "promises (send base url options hs w) = promises w"
  by (simp_all add: send_def emit_def)

text \<open>
  C1 (as amended). A call of \<^verbatim>\<open>apiRequest\<close> whose first response is 401, in any state
  the service reaches, has exactly one of these outcomes, decided by the refresh and by the
  resent request alone.

  \<^item> The refresh fails (its \<^verbatim>\<open>fetch\<close> is rejected, its response is not ok, its body does
    not parse, or the marker holds a refresh that was rejected earlier): the error of the
    refresh is rethrown and the trace is the request, the refresh network call when no
    refresh was in flight, the revocation request and the redirect to \<^verbatim>\<open>/login\<close>.
    Nothing is resent.
  \<^item> The refresh succeeds and the resent request is answered: the new token is held, the
    timer is re-armed, the request is resent once with the new token, and the second
    response is returned whatever its status. No logout, no redirect.
  \<^item> The refresh succeeds and the resent request is rejected: as before, followed by the
    revocation request and the redirect, and the rejection is rethrown.

  In a reachable state the marker never holds a fulfilled refresh.
\<close>

theorem apiRequest_unauthorized:
  assumes "status r = 401"
  shows "let w = run base acts;
             (res, w') = apiRequest base url options (Fulfilled r) rres resent w;
             sent = (\<lambda>hs. Fetch (resolveUrl base url) (options\<lparr>headers := hs, credentials := Some ''include''\<rparr>));
             hs = attach w (headers options);
             refreshed = (if refreshPromise w = None
                          then [Fetch (base @ ''/auth/refresh'')
                                  \<lparr>http_method = Some ''POST'', headers = [], payload = None,
                                   credentials = Some ''include''\<rparr>]
                          else []);
             forced = [Fetch (base @ ''/auth/logout'')
                         \<lparr>http_method = Some ''POST'', headers = [], payload = None,
                          credentials = Some ''include''\<rparr>, Redirect ''/login''];
             held = (case refreshPromise w of None \<Rightarrow> None | Some p \<Rightarrow> promises w p)
         in case held of
              Some v \<Rightarrow>
                (case v of
                   Rejected e \<Rightarrow> res = Inl e \<and> log w' = log w @ [sent hs] @ forced
                 | Fulfilled data \<Rightarrow> False)
            | None \<Rightarrow>
                (case refresh_outcome rres of
                   Rejected e \<Rightarrow> res = Inl e \<and> log w' = log w @ [sent hs] @ refreshed @ forced
                 | Fulfilled data \<Rightarrow>
                     accessToken w' = access_token data \<and>
                     (let rearmed =
                            map ClearTimeout (case tokenRefreshTimeout w of None \<Rightarrow> [] | Some h \<Rightarrow> [h])
                              @ [SetTimeout (Suc (next_handle w)) (refreshIn (expires_in data))]
                      in case resent of
                           Fulfilled r' \<Rightarrow>
                             res = Inr r' \<and>
                             log w' = log w @ [sent hs] @ refreshed @ rearmed @ [sent (attach w' hs)]
                         | Rejected e \<Rightarrow>
                             res = Inl e \<and>
                             log w' = log w @ [sent hs] @ refreshed @ rearmed
                                        @ [sent (attach w' hs)] @ forced))"
proof -
  let ?w = "run base acts"
  let ?hs = "attach ?w (headers options)"
  let ?w1 = "send base url options ?hs ?w"
  have wf: "wf ?w" by (rule wf_run)
  have wf1: "wf ?w1" by (simp add: wf_send wf)
  obtain p w2 where c: "refreshAccessToken base ?w1 = (p, w2)" by (cases "refreshAccessToken base ?w1")
  obtain v w3 where a: "await_refresh p rres w2 = (v, w3)" by (cases "await_refresh p rres w2")
  have h0: "\<forall>h. tokenRefreshTimeout w2 = Some h \<longrightarrow> h \<noteq> 0"
    using wf_handle[OF wf] call_fields(1)[of base ?w1] c by (auto simp: send_fields)
  have t2: "tokenRefreshTimeout w2 = tokenRefreshTimeout ?w" "next_handle w2 = next_handle ?w"
    using call_fields(1,2)[of base ?w1] c by (simp_all add: send_fields)
  have l2: "log w2 = log ?w @ [Fetch (resolveUrl base url) (options\<lparr>headers := ?hs, credentials := Some ''include''\<rparr>)]
      @ (if refreshPromise ?w = None
                          then [Fetch (base @ ''/auth/refresh'')
                                  \<lparr>http_method = Some ''POST'', headers = [], payload = None,
                                   credentials = Some ''include''\<rparr>]
                          else [])"
    using refresh_call_log[of base ?w1] c by (simp add: send_log refresh_call_send)
  have unfold: "apiRequest base url options (Fulfilled r) rres resent ?w =
      (case v of
         Rejected e \<Rightarrow> (Inl e, force_logout base w3)
       | Fulfilled data \<Rightarrow>
           (case resent of
              Rejected e \<Rightarrow> (Inl e, force_logout base (send base url options (attach w3 ?hs) w3))
            | Fulfilled r' \<Rightarrow> (Inr r', send base url options (attach w3 ?hs) w3)))"
    using assms c a
    by (simp add: apiRequest_def apiRequest_call_def apiRequest_settle_def Let_def split: settled.splits)
  show ?thesis
  proof (cases "case refreshPromise ?w of None \<Rightarrow> None | Some p \<Rightarrow> promises ?w p")
    case (Some u)
    then obtain q where q: "refreshPromise ?w = Some q" "promises ?w q = Some u"
      by (auto split: option.splits)
    from wf q obtain e where e: "u = Rejected e" by (cases u) (auto simp: wf_def)
    have "refreshPromise ?w1 = Some q" using q(1) by (simp add: refresh_call_send)
    from call_fields(3,4)[OF this, of base] c have pw: "p = q" "w2 = ?w1" by simp_all
    with a q(2) e have "v = Rejected e" "w3 = ?w1" by (simp_all add: await_refresh_def send_fields)
    then show ?thesis
      using Some e q(1) by (simp add: Let_def unfold force_logout_log send_log)
  next
    case None
    have pend: "promises w2 p = None"
    proof (cases "refreshPromise ?w")
      case None
      then have n1: "refreshPromise ?w1 = None" by (simp add: refresh_call_send)
      from call_fields(5,6)[OF n1, of base] c
      have "p = Suc (next_promise ?w)" "promises w2 = promises ?w" by (simp_all add: send_fields)
      then show ?thesis using wf by (simp add: wf_def)
    next
      case (Some q)
      then have "refreshPromise ?w1 = Some q" by (simp add: refresh_call_send)
      from call_fields(3,4)[OF this, of base] c have "p = q" "w2 = ?w1" by simp_all
      then show ?thesis using None Some by (simp add: send_fields)
    qed
    then have s: "refreshAccessToken_settle p rres w2 = (v, w3)" using a by (simp add: await_refresh_def)
    have v: "v = refresh_outcome rres" using settle_outcome[of p rres w2] s by simp
    show ?thesis
    proof (cases "refresh_outcome rres")
      case (Rejected e)
      from settle_rejected_log[OF this, of p w2] s have "log w3 = log w2" by simp
      then show ?thesis
        using None Rejected v l2 by (simp add: Let_def unfold force_logout_log)
    next
      case (Fulfilled data)
      from settle_fulfilled_log[OF this h0, of p] s
      have l3: "log w3 = log w2 @ map ClearTimeout (case tokenRefreshTimeout ?w of None \<Rightarrow> [] | Some h \<Rightarrow> [h])
             @ [SetTimeout (Suc (next_handle ?w)) (refreshIn (expires_in data))]"
        and tok: "accessToken w3 = access_token data"
        by (simp_all add: t2)
      show ?thesis
        using None Fulfilled v l2 l3 tok unfold
        by (cases resent)
          (simp_all add: Let_def force_logout_log send_log send_token force_logout_token
            attach_send attach_force_logout)
    qed
  qed
qed

text \<open>
  C1 on both paths from a fresh service: a granted refresh, after which the request is
  resent with the new token and its response returned; and a refresh that fails on the
  network, which ends in the forced logout without a resend.
\<close>

theorem apiRequest_unauthorized_witness:
  "status \<lparr>status = 401, json = Fulfilled ()\<rparr> = 401 \<and>
   apiRequest ''/api'' ''/x'' GET (Fulfilled \<lparr>status = 401, json = Fulfilled ()\<rparr>)
       (Fulfilled \<lparr>status = 200,
                   json = Fulfilled \<lparr>access_token = Some ''t2'', expires_in = Some (Finite 1800)\<rparr>\<rparr>)
       (Fulfilled \<lparr>status = 200, json = Fulfilled ()\<rparr>)
       (run ''/api'' [])
     = (Inr \<lparr>status = 200, json = Fulfilled ()\<rparr>,
        constructor\<lparr>accessToken := Some ''t2'', tokenRefreshTimeout := Some 1,
          timers := [(1, Finite 1440000)], next_handle := 1, next_promise := 1,
          promises := (\<lambda>_. None)(1 := Some (Fulfilled \<lparr>access_token = Some ''t2'', expires_in = Some (Finite 1800)\<rparr>)),
          log := [Fetch ''/api/x'' (GET\<lparr>credentials := Some ''include''\<rparr>),
                  Fetch ''/api/auth/refresh''
                    \<lparr>http_method = Some ''POST'', headers = [], payload = None,
                     credentials = Some ''include''\<rparr>,
                  SetTimeout 1 (Finite 1440000),
                  Fetch ''/api/x''
                    (GET\<lparr>headers := [(''Authorization'', ''Bearer t2'')],
                         credentials := Some ''include''\<rparr>)]\<rparr>) \<and>
   apiRequest ''/api'' ''/x'' GET (Fulfilled \<lparr>status = 401, json = Fulfilled ()\<rparr>)
       (Rejected (Error ''Failed to fetch'')) (Fulfilled \<lparr>status = 200, json = Fulfilled ()\<rparr>)
       (run ''/api'' [])
     = (Inl (Error ''Failed to fetch''),
        constructor\<lparr>refreshPromise := Some 1, next_promise := 1,
          promises := (\<lambda>_. None)(1 := Some (Rejected (Error ''Failed to fetch''))),
          log := [Fetch ''/api/x'' (GET\<lparr>credentials := Some ''include''\<rparr>),
                  Fetch ''/api/auth/refresh''
                    \<lparr>http_method = Some ''POST'', headers = [], payload = None,
                     credentials = Some ''include''\<rparr>,
                  Fetch ''/api/auth/logout''
                    \<lparr>http_method = Some ''POST'', headers = [], payload = None,
                     credentials = Some ''include''\<rparr>,
                  Redirect ''/login'']\<rparr>)"
  using apiRequest_unauthorized[where r = "\<lparr>status = 401, json = Fulfilled ()\<rparr>" and base = "''/api''"
      and url = "''/x''" and options = GET and rres = "Rejected (Error ''Failed to fetch'')"
      and resent = "Fulfilled \<lparr>status = 200, json = Fulfilled ()\<rparr>" and acts = "[]"]
    apiRequest_unauthorized[where r = "\<lparr>status = 401, json = Fulfilled ()\<rparr>" and base = "''/api''"
      and url = "''/x''" and options = GET
      and rres = "Fulfilled \<lparr>status = 200,
                   json = Fulfilled \<lparr>access_token = Some ''t2'', expires_in = Some (Finite 1800)\<rparr>\<rparr>"
      and resent = "Fulfilled \<lparr>status = 200, json = Fulfilled ()\<rparr>" and acts = "[]"]
  by (simp add: run_def apiRequest_def apiRequest_call_def apiRequest_settle_def constructor_def
      attach_def send_def emit_def resolveUrl_def
      refreshAccessToken_def await_refresh_def refreshAccessToken_settle_def settle_promise_def
      scheduleTokenRefresh_def setTimeout_def refreshIn_values ok_def
      force_logout_def logout_call_def GET_def Let_def)

text \<open>
  C1 as stated fails where the resent request is unauthorized again: the 401 response is
  returned to the caller, with no logout request and no redirect.
\<close>

theorem apiRequest_retried_unauthorized_returned:
  "apiRequest ''/api'' ''/x'' GET (Fulfilled \<lparr>status = 401, json = Fulfilled ()\<rparr>)
       (Fulfilled \<lparr>status = 200,
                   json = Fulfilled \<lparr>access_token = Some ''t2'', expires_in = Some (Finite 1800)\<rparr>\<rparr>)
       (Fulfilled \<lparr>status = 401, json = Fulfilled ()\<rparr>)
       constructor
     = (Inr \<lparr>status = 401, json = Fulfilled ()\<rparr>,
        constructor\<lparr>accessToken := Some ''t2'', tokenRefreshTimeout := Some 1,
          timers := [(1, Finite 1440000)], next_handle := 1, next_promise := 1,
          promises := (\<lambda>_. None)(1 := Some (Fulfilled \<lparr>access_token = Some ''t2'', expires_in = Some (Finite 1800)\<rparr>)),
          log := [Fetch ''/api/x'' (GET\<lparr>credentials := Some ''include''\<rparr>),
                  Fetch ''/api/auth/refresh''
                    \<lparr>http_method = Some ''POST'', headers = [], payload = None,
                     credentials = Some ''include''\<rparr>,
                  SetTimeout 1 (Finite 1440000),
                  Fetch ''/api/x''
                    (GET\<lparr>headers := [(''Authorization'', ''Bearer t2'')],
                         credentials := Some ''include''\<rparr>)]\<rparr>)"
  by (simp add: apiRequest_def apiRequest_call_def apiRequest_settle_def constructor_def attach_def send_def emit_def resolveUrl_def
      refreshAccessToken_def await_refresh_def refreshAccessToken_settle_def settle_promise_def
      scheduleTokenRefresh_def setTimeout_def refreshIn_values ok_def
      force_logout_def logout_call_def GET_def Let_def)

lemma apiRequest_first_send:
  "\<exists>evs. log (snd (apiRequest base url options first_res rres resent w)) =
      log w @ Fetch (resolveUrl base url)
                (options\<lparr>headers := attach w (headers options), credentials := Some ''include''\<rparr>) # evs"
proof -
  let ?hs = "attach w (headers options)"
  let ?w1 = "send base url options ?hs w"
  obtain p w2 where c: "refreshAccessToken base ?w1 = (p, w2)" by (cases "refreshAccessToken base ?w1")
  obtain v w3 where a: "await_refresh p rres w2 = (v, w3)" by (cases "await_refresh p rres w2")
  from refresh_call_log[of base ?w1] c obtain e2 where l2: "log w2 = log ?w1 @ e2" by simp
  from await_log[of p rres w2] a obtain e3 where l3: "log w3 = log w2 @ e3" by auto
  show ?thesis
    using c a l2 l3
    by (auto simp: apiRequest_def apiRequest_call_def apiRequest_settle_def Let_def send_log force_logout_log split: settled.splits)
qed

text \<open>
  C9. With no token held (null, or the empty string) the request is sent all the same,
  first of all effects, with the caller's headers as they are: nothing is attached.
\<close>

theorem apiRequest_without_token:
  assumes "\<not> truthy (accessToken w)"
  shows "\<exists>evs. log (snd (apiRequest base url options first_res rres resent w)) =
           log w @ Fetch (resolveUrl base url)
                     (options\<lparr>headers := headers options, credentials := Some ''include''\<rparr>) # evs"
proof -
  from assms have "attach w (headers options) = headers options"
    by (auto simp: attach_def truthy_def split: option.splits)
  with apiRequest_first_send[of base url options first_res rres resent w] show ?thesis by simp
qed

text \<open>
  C9 before any login.
\<close>

theorem apiRequest_without_token_witness:
  "\<not> truthy (accessToken constructor) \<and>
   log (snd (apiRequest ''/api'' ''tasks/j1'' GET (Fulfilled \<lparr>status = 200, json = Fulfilled ()\<rparr>)
               (Rejected (Error [])) (Rejected (Error [])) constructor))
     = [Fetch ''/api/tasks/j1''
          \<lparr>http_method = Some ''GET'', headers = [], payload = None, credentials = Some ''include''\<rparr>]"
proof -
  have t: "\<not> truthy (accessToken constructor)" by (simp add: truthy_def constructor_def)
  from apiRequest_without_token[OF t, of "''/api''" "''tasks/j1''" GET
      "Fulfilled \<lparr>status = 200, json = Fulfilled ()\<rparr>" "Rejected (Error [])" "Rejected (Error [])"]
  show ?thesis using t
    by (simp add: apiRequest_def apiRequest_call_def apiRequest_settle_def constructor_def attach_def send_def emit_def resolveUrl_def GET_def Let_def)
qed

text \<open>
  C5 on the code: a refresh whose \<^verbatim>\<open>fetch\<close> is rejected leaves the marker set to the
  rejected promise. The next call returns that promise with no network call, and so does
  the scheduled refresh after a later successful login, which ends in the forced logout
  without the server having been asked.
\<close>

theorem refresh_network_failure_keeps_marker:
  "let failed = Error ''Failed to fetch'';
       granted = Fulfilled \<lparr>status = 200,
                   json = Fulfilled \<lparr>access_token = Some ''t1'', expires_in = Some (Finite 1800)\<rparr>\<rparr>;
       (p, w1) = refreshAccessToken ''/api'' constructor;
       (v, w2) = await_refresh p (Rejected failed) w1;
       (q, w3) = refreshAccessToken ''/api'' w2;
       (u, w4) = await_refresh q granted w3;
       w5 = snd (login ''/api'' ''u'' ''p'' granted w4);
       w6 = scheduled_refresh ''/api'' granted w5
   in v = Rejected failed \<and> refreshPromise w2 = Some p \<and> outstanding w2 = [] \<and>
      q = p \<and> w3 = w2 \<and> u = Rejected failed \<and> w4 = w2 \<and>
      accessToken w5 = Some ''t1'' \<and> refreshPromise w5 = Some p \<and>
      fetches ''/api/auth/refresh'' w6 = 1 \<and>
      fetches ''/api/auth/logout'' w6 = 1 \<and> last (log w6) = Redirect ''/login''"
  by (simp add: constructor_def emit_def refreshAccessToken_def await_refresh_def
      refreshAccessToken_settle_def settle_promise_def login_def login_call_def login_settle_def
      scheduleTokenRefresh_def setTimeout_def refreshIn_values ok_def scheduled_refresh_def
      force_logout_def logout_call_def fetches_def Let_def)

section \<open>Properties of the task tracker\<close>
















text \<open>
  What a poll does with an HTTP error status. The handler of line 141 passes over an error
  whose \<^verbatim>\<open>response.status\<close> is 404; but \<^verbatim>\<open>apiRequest\<close> returns every response that
  is not a 401 as a value, so a 404 never reaches the handler: its body's \<^verbatim>\<open>status\<close>
  field, present or not, becomes the task status.
\<close>

lemma catch_poll_not_found: "response_status e = Some 404 \<Longrightarrow> catch_poll e s = s"
  by (simp add: catch_poll_def)

lemma apiRequest_returns_response:
  "status r \<noteq> 401 \<Longrightarrow> fst (apiRequest base url options (Fulfilled r) rres resent w) = Inr r"
  by (simp add: apiRequest_def apiRequest_call_def apiRequest_settle_def Let_def)

lemma getProgramList_status:
  "taskStatus (snd (snd (getProgramList base lx (w, s)))) = taskStatus s"
  by (auto simp: getProgramList_def Let_def split: prod.splits sum.splits settled.splits option.splits)

lemma pollTaskStatus_applies_body_status:
  assumes "first x = Fulfilled r" "status r \<noteq> 401" "json r = Fulfilled body"
  shows "taskStatus (snd (pollTaskStatus base tid x lx (w, s))) = task_status body"
proof -
  obtain w1 where a: "apiRequest base (base @ ''/tasks/'' @ tid) GET (first x) (refresh x) (retry x) w = (Inr r, w1)"
    using apiRequest_returns_response[OF assms(2), of base "base @ ''/tasks/'' @ tid" GET "refresh x" "retry x" w] assms(1)
    by (cases "apiRequest base (base @ ''/tasks/'' @ tid) GET (Fulfilled r) (refresh x) (retry x) w") simp
  have g: "getProgramList base lx (w', s') = (e, w'', s'') \<Longrightarrow> taskStatus s'' = taskStatus s'" for w' s' e w'' s''
    using getProgramList_status[of base lx w' s'] by simp
  show ?thesis
    using a assms(3)
    by (auto simp: pollTaskStatus_def Let_def catch_poll_def dest!: g split: prod.splits option.splits)
qed

lemmas service_defs =
  apiRequest_def apiRequest_call_def apiRequest_settle_def attach_def send_def emit_def resolveUrl_def refreshAccessToken_def
  await_refresh_def refreshAccessToken_settle_def settle_promise_def scheduleTokenRefresh_def
  setTimeout_def clearTimeout_def force_logout_def logout_call_def GET_def constructor_def ok_def

lemmas tracker_defs =
  ui_run_def tick_def pollTaskStatus_def getProgramList_def catch_poll_def commit_def effect_def
  cleanup_def mount_def template_def truthy_def polling_def fetches_def Error_def


text \<open>
  C4 on the code: a poll whose request fails on the network records the error and clears
  the loading flag, but leaves the status \<^verbatim>\<open>processing\<close>: the interval stays armed and
  the next period issues the next status request.
\<close>

theorem poll_error_keeps_polling:
  "(let none = \<lparr>first = Rejected (Error []), refresh = Rejected (Error []), retry = Rejected (Error [])\<rparr>;
        processing = \<lparr>first = Fulfilled \<lparr>status = 200,
                     json = Fulfilled \<lparr>task_status = Some ''processing'', task_id = Some ''j1'', task_error = None\<rparr>\<rparr>,
                   refresh = Rejected (Error []), retry = Rejected (Error [])\<rparr>;
        failing = \<lparr>first = Rejected (Error ''Failed to fetch''),
                   refresh = Rejected (Error []), retry = Rejected (Error [])\<rparr>;
        (w0, s0) = ui_run ''/api'' constructor
                     [Submitted (Some ''j1'') (Some ''processing'') processing none];
        (w1, s1) = tick ''/api'' failing none (w0, s0);
        (w2, s2) = tick ''/api'' failing none (w1, s1)
    in polling s0 \<and> fetches ''/api/tasks/j1'' w0 = 1 \<and>
       error s1 = Some ''Failed to check Program status: Failed to fetch'' \<and>
       taskStatus s1 = Some ''processing'' \<and> polling s1 \<and> fetches ''/api/tasks/j1'' w1 = 2 \<and>
       polling s2 \<and> fetches ''/api/tasks/j1'' w2 = 3)"
  by (simp add: service_defs tracker_defs Let_def)

text \<open>
  C7 on the code: \<^verbatim>\<open>fetch\<close> fulfils on HTTP 404, so the poll takes the \<^verbatim>\<open>try\<close> path.
  With a JSON body that has no \<^verbatim>\<open>status\<close> field the task status becomes undefined and
  the interval is not armed (or is cleared): polling stops, at submission as well as at a
  later period. With a body that is not JSON the parse error is recorded as an error.
\<close>

theorem poll_not_found_stops_polling:
  "(let none = \<lparr>first = Rejected (Error []), refresh = Rejected (Error []), retry = Rejected (Error [])\<rparr>;
        processing = \<lparr>first = Fulfilled \<lparr>status = 200,
                     json = Fulfilled \<lparr>task_status = Some ''processing'', task_id = Some ''j1'', task_error = None\<rparr>\<rparr>,
                   refresh = Rejected (Error []), retry = Rejected (Error [])\<rparr>;
        not_found = \<lparr>first = Fulfilled \<lparr>status = 404,
                     json = Fulfilled \<lparr>task_status = None, task_id = None, task_error = None\<rparr>\<rparr>,
                   refresh = Rejected (Error []), retry = Rejected (Error [])\<rparr>;
        not_found_text = \<lparr>first = Fulfilled \<lparr>status = 404, json = Rejected (Error ''Unexpected token'')\<rparr>,
                   refresh = Rejected (Error []), retry = Rejected (Error [])\<rparr>;
        (w0, s0) = ui_run ''/api'' constructor
                     [Submitted (Some ''j1'') (Some ''processing'') not_found none];
        (w1, s1) = tick ''/api'' processing none (w0, s0);
        (w2, s2) = ui_run ''/api'' constructor
                     [Submitted (Some ''j1'') (Some ''processing'') not_found_text none];
        (w3, s3) = ui_run ''/api'' constructor
                     [Submitted (Some ''j1'') (Some ''processing'') processing none,
                      Tick not_found none]
    in taskStatus s0 = None \<and> error s0 = None \<and> \<not> polling s0 \<and>
       fetches ''/api/tasks/j1'' w0 = 1 \<and> (w1, s1) = (w0, s0) \<and>
       error s2 = Some ''Failed to check Program status: Unexpected token'' \<and>
       taskStatus s3 = None \<and> \<not> polling s3 \<and> fetches ''/api/tasks/j1'' w3 = 2)"
  by (simp add: service_defs tracker_defs Let_def)

end
